theory Spec2Isabelle
  imports Main
begin

section \<open>The source dictionary\<close>

text \<open>
  The adapter of \<^verbatim>\<open>qiskit_metal/_gui/tree_model_base.py\<close> displays a nested dictionary
  whose keys are strings and whose values are either nested dictionaries or scalars. A
  Python dictionary iterates in insertion order, so a dictionary is an association list;
  that a Python dictionary holds each key once is the predicate \<open>wf_dict\<close> below.
  The type of scalars is a parameter. Nested dictionaries are taken to be unshared (no
  dictionary object is the value of two keys), so that the in-place assignment of
  \<^verbatim>\<open>setData\<close> is the functional update of one entry.
\<close>

datatype 'v dval = Scalar 'v | Dict "(string \<times> 'v dval) list"

type_synonym 'v dict = "(string \<times> 'v dval) list"

fun wf_dict :: "'v dict \<Rightarrow> bool" where
  "wf_dict [] = True"
| "wf_dict ((k, Dict d) # rest) = (k \<notin> set (map fst rest) \<and> wf_dict d \<and> wf_dict rest)"
| "wf_dict ((k, Scalar v) # rest) = (k \<notin> set (map fst rest) \<and> wf_dict rest)"

datatype error =
  AttributeError | KeyError | TypeError | IndexError | AssertionError | OverflowError

text \<open>
  \<^verbatim>\<open>getPaths(curdict, curpath)\<close> appends to \<^verbatim>\<open>self.paths\<close> one list
  \<^verbatim>\<open>curpath + [k, v]\<close> for every scalar; the function returns the lists it appends, in
  order. A path \<^verbatim>\<open>[k1, ..., kn, v]\<close> is the pair \<open>([k1, ..., kn], v)\<close>: its slice
  \<^verbatim>\<open>path[:-1]\<close> is the first component, \<^verbatim>\<open>path[-2]\<close> the last key,
  \<^verbatim>\<open>path[:-2]\<close> the keys without the last one.
\<close>

type_synonym 'v path = "string list \<times> 'v"

fun getPaths :: "'v dict \<Rightarrow> string list \<Rightarrow> 'v path list" where
  "getPaths [] curpath = []"
| "getPaths ((k, Dict d) # rest) curpath = getPaths d (curpath @ [k]) @ getPaths rest curpath"
| "getPaths ((k, Scalar v) # rest) curpath = (curpath @ [k], v) # getPaths rest curpath"

text \<open>\<^verbatim>\<open>dic[x]\<close> and \<^verbatim>\<open>dic[x] = v\<close> on one dictionary.\<close>

definition dict_getitem :: "'v dict \<Rightarrow> string \<Rightarrow> error + 'v dval" where
  "dict_getitem dic x = (case map_of dic x of None \<Rightarrow> Inl KeyError | Some y \<Rightarrow> Inr y)"

fun dict_setitem :: "'v dict \<Rightarrow> string \<Rightarrow> 'v dval \<Rightarrow> 'v dict" where
  "dict_setitem [] x y = [(x, y)]"
| "dict_setitem ((k, z) # rest) x y =
     (if k = x then (k, y) # rest else (k, z) # dict_setitem rest x y)"


section \<open>Nodes\<close>

text \<open>
  The classes \<^verbatim>\<open>BranchNode\<close> and \<^verbatim>\<open>LeafNode\<close> are imported from
  \<^verbatim>\<open>widgets/edit_component/tree_model_options.py\<close>, which is not among the sources.
  Nodes are objects that are mutated and compared by identity, so they live in a store: a
  list of nodes, the address of a node being its position. A new object gets the next
  address; objects are never freed.

  A branch carries its name, its parent and its children, the list
  \<^verbatim>\<open>[(childname_0, childnode_0), ...]\<close> of the comment at the head of the source file. A
  leaf carries its label, its parent and its path. The attribute \<^verbatim>\<open>_data\<close> of a
  branch is always a reference to the one source dictionary (\<^verbatim>\<open>self.data_dict\<close> is
  what \<^verbatim>\<open>load\<close> passes to every constructor and stores in the root), so it is the
  field \<open>data_dict\<close> of the model and not a field of the node.
\<close>

datatype node =
    BranchNode (name: string) (node_parent: "nat option") (children: "(string \<times> nat) list")
  | LeafNode (label: string) (node_parent: "nat option") (path: "string list")

fun childname :: "node \<Rightarrow> string" where
  "childname (BranchNode n p cs) = n"
| "childname (LeafNode l p pth) = l"

fun set_parent :: "nat option \<Rightarrow> node \<Rightarrow> node" where
  "set_parent q (BranchNode n p cs) = BranchNode n q cs"
| "set_parent q (LeafNode l p pth) = LeafNode l q pth"

text \<open>
  Modelled from the spec: the methods of \<^verbatim>\<open>BranchNode\<close>, which the sources do not
  hold. The spec gives a branch an ordered sequence of children and asks that child
  lookup by key reuses an existing child; the source tests the result of
  \<^verbatim>\<open>childWithKey\<close> with \<^verbatim>\<open>not\<close>, asserts that \<^verbatim>\<open>rowOfChild\<close> is not
  \<^verbatim>\<open>-1\<close> and takes \<^verbatim>\<open>len(node)\<close> of a branch as its row count. So:
  \<^verbatim>\<open>childWithKey\<close> returns the first child stored under the key, or
  \<^verbatim>\<open>None\<close>; \<^verbatim>\<open>insertChild\<close> sets the child's parent and appends the child under
  its own name; \<^verbatim>\<open>childAtRow\<close> returns the child at a row, or \<^verbatim>\<open>None\<close> out of
  range; \<^verbatim>\<open>rowOfChild\<close> returns the first row holding that very object, or
  \<^verbatim>\<open>-1\<close>. A leaf has none of these methods: calling one raises
  \<^verbatim>\<open>AttributeError\<close>.
\<close>

definition childWithKey :: "node list \<Rightarrow> nat \<Rightarrow> string \<Rightarrow> error + nat option" where
  "childWithKey h b key =
     (case h ! b of
        LeafNode l p pth \<Rightarrow> Inl AttributeError
      | BranchNode n p cs \<Rightarrow> Inr (map_of cs key))"

definition insertChild :: "node list \<Rightarrow> nat \<Rightarrow> nat \<Rightarrow> error + node list" where
  "insertChild h b c =
     (case h ! b of
        LeafNode l p pth \<Rightarrow> Inl AttributeError
      | BranchNode n p cs \<Rightarrow>
          (let h1 = h[c := set_parent (Some b) (h ! c)]
           in Inr (h1[b := BranchNode n p (cs @ [(childname (h1 ! c), c)])])))"

definition childAtRow :: "node list \<Rightarrow> nat \<Rightarrow> int \<Rightarrow> error + nat option" where
  "childAtRow h b r =
     (case h ! b of
        LeafNode l p pth \<Rightarrow> Inl AttributeError
      | BranchNode n p cs \<Rightarrow>
          Inr (if 0 \<le> r \<and> r < int (length cs) then Some (snd (cs ! nat r)) else None))"

fun first_row :: "(string \<times> nat) list \<Rightarrow> nat \<Rightarrow> int \<Rightarrow> int" where
  "first_row [] c i = - 1"
| "first_row ((k, a) # cs) c i = (if a = c then i else first_row cs c (i + 1))"

definition rowOfChild :: "node list \<Rightarrow> nat \<Rightarrow> nat \<Rightarrow> error + int" where
  "rowOfChild h b c =
     (case h ! b of
        LeafNode l p pth \<Rightarrow> Inl AttributeError
      | BranchNode n p cs \<Rightarrow> Inr (first_row cs c 0))"

text \<open>
  Python's \<^verbatim>\<open>not x\<close> for \<^verbatim>\<open>x\<close> a node or \<^verbatim>\<open>None\<close>. The source calls
  \<^verbatim>\<open>len(node)\<close> on a branch, so a branch has a length (the number of its children)
  and one without children is false; a leaf is an object without a length, hence true.
\<close>

fun truthy :: "node \<Rightarrow> bool" where
  "truthy (BranchNode n p cs) = (cs \<noteq> [])"
| "truthy (LeafNode l p pth) = True"

definition py_not :: "node list \<Rightarrow> nat option \<Rightarrow> bool" where
  "py_not h x = (case x of None \<Rightarrow> True | Some a \<Rightarrow> \<not> truthy (h ! a))"

text \<open>\<^verbatim>\<open>get_nested_dict_item\<close>: successive lookups from the dictionary root.\<close>

fun get_nested_dict_item :: "'v dval \<Rightarrow> string list \<Rightarrow> error + 'v dval" where
  "get_nested_dict_item d [] = Inr d"
| "get_nested_dict_item (Scalar v) (x # xs) = Inl TypeError"
| "get_nested_dict_item (Dict dic) (x # xs) =
     (case dict_getitem dic x of
        Inl e \<Rightarrow> Inl e
      | Inr y \<Rightarrow> get_nested_dict_item y xs)"


section \<open>The model\<close>

text \<open>
  Qt's \<^verbatim>\<open>QModelIndex\<close>: a row, a column, an internal pointer (here the address of a
  node, or none) and the model it belongs to. \<^verbatim>\<open>QModelIndex()\<close> is the invalid index
  \<open>(-1, -1, null)\<close> of no model; an index is valid when its row and column are not
  negative and it has a model. \<^verbatim>\<open>createIndex(row, column, object)\<close> makes an index
  of this model (\<open>mk_index\<close>); its row and column are C integers, and the call raises
  \<^verbatim>\<open>OverflowError\<close> for a Python integer that does not fit one.
\<close>

datatype QModelIndex =
  QModelIndex (row: int) (column: int) (internalPointer: "nat option") (has_model: bool)

definition QModelIndex_default :: QModelIndex where
  "QModelIndex_default = QModelIndex (- 1) (- 1) None False"

definition mk_index :: "int \<Rightarrow> int \<Rightarrow> nat option \<Rightarrow> QModelIndex" where
  "mk_index r c p = QModelIndex r c p True"

definition c_int :: "int \<Rightarrow> bool" where
  "c_int x = (- (2 ^ 31) \<le> x \<and> x < 2 ^ 31)"

definition createIndex :: "int \<Rightarrow> int \<Rightarrow> nat option \<Rightarrow> error + QModelIndex" where
  "createIndex r c p = (if c_int r \<and> c_int c then Inr (mk_index r c p) else Inl OverflowError)"

definition isValid :: "QModelIndex \<Rightarrow> bool" where
  "isValid i = (0 \<le> row i \<and> 0 \<le> column i \<and> has_model i)"

datatype ItemDataRole = DisplayRole | EditRole | FontRole | TextAlignmentRole | OtherRole

datatype Orientation = Horizontal | Vertical

datatype ItemFlag = ItemIsSelectable | ItemIsEnabled | ItemIsEditable

text \<open>What a cell or header read returns: a null \<^verbatim>\<open>QVariant\<close>, a string, a bold
  \<^verbatim>\<open>QFont\<close>, or a \<^verbatim>\<open>QVariant\<close> holding an integer.\<close>

datatype variant = QVariant | Text string | BoldFont | QVariant_int int

text \<open>The calls into the framework that the adapter makes, in order.\<close>

datatype signal = BeginResetModel | EndResetModel | ModelReset | AutoresizeColumns

record 'v model =
  heap :: "node list"
  root :: nat
  headers :: "string list"
  paths :: "'v path list"
  priv_rowCount :: int
  priv_view :: bool
  data_dict :: "'v dict"
  signals :: "signal list"

text \<open>
  Every method takes the model and returns its result, or the exception it raises,
  together with the model afterwards.
\<close>

definition nodeFromIndex :: "'v model \<Rightarrow> QModelIndex \<Rightarrow> nat option \<times> 'v model" where
  "nodeFromIndex m i = (if isValid i then (internalPointer i, m) else (Some (root m), m))"

text \<open>
  Modelled from the spec: the attribute \<^verbatim>\<open>value\<close> of \<^verbatim>\<open>LeafNode\<close>, which the
  sources do not hold. The spec lists it as ``value (current scalar)'' and has the path of
  a leaf lead ``from the dictionary root to this value''. The source agrees with a value
  that is read and not stored: the constructor call in \<^verbatim>\<open>load\<close> passes a leaf its
  label, parent and path but no value; every branch is handed the source dictionary
  (\<^verbatim>\<open>data=self.data_dict\<close>); and \<^verbatim>\<open>setData\<close>, whose docstring says it sets
  ``the LeafNode value and corresponding data entry'', assigns the dictionary entry only.
  So the value of a leaf is what successive lookups along its path find in the source
  dictionary now; a path that no longer resolves raises.
\<close>

definition leaf_value :: "'v model \<Rightarrow> nat \<Rightarrow> error + 'v dval" where
  "leaf_value m a = get_nested_dict_item (Dict (data_dict m)) (path (heap m ! a))"


subsection \<open>Building the tree\<close>

text \<open>
  The loop \<^verbatim>\<open>for key in path[:-2]\<close> of \<^verbatim>\<open>load\<close>, with the store and the local
  variables \<^verbatim>\<open>root\<close> and \<^verbatim>\<open>branch\<close> as state. A constructed branch gets the next
  address.
\<close>

fun load_keys ::
  "node list \<Rightarrow> nat \<Rightarrow> nat option \<Rightarrow> string list \<Rightarrow> (error + nat \<times> nat option) \<times> node list"
where
  "load_keys h rt branch [] = (Inr (rt, branch), h)"
| "load_keys h rt branch (key # keys) =
     (case childWithKey h rt key of
        Inl e \<Rightarrow> (Inl e, h)
      | Inr found \<Rightarrow>
          if py_not h found then
            (let b = length h; h1 = h @ [BranchNode key None []]
             in case insertChild h1 rt b of
                  Inl e \<Rightarrow> (Inl e, h1)
                | Inr h2 \<Rightarrow> load_keys h2 b (Some b) keys)
          else load_keys h (the found) found keys)"

text \<open>
  The body of \<^verbatim>\<open>for path in self.paths\<close>: the loop over the keys, then the
  \<^verbatim>\<open>if not branch\<close> that attaches the new leaf. A path without keys would be the
  one-element list \<^verbatim>\<open>[v]\<close>, on which \<^verbatim>\<open>path[-2]\<close> raises.
\<close>

definition attach_leaf ::
  "node list \<Rightarrow> nat \<Rightarrow> nat option \<Rightarrow> 'v path \<Rightarrow> error option \<times> node list"
where
  "attach_leaf h rt branch p =
     (if fst p = [] then (Some IndexError, h)
      else
        (let target = (if py_not h branch then rt else the branch);
             leaf = length h;
             h1 = h @ [LeafNode (last (fst p)) (Some target) (fst p)]
         in case insertChild h1 target leaf of
              Inl e \<Rightarrow> (Some e, h1)
            | Inr h2 \<Rightarrow> (None, h2)))"

definition load_path :: "node list \<Rightarrow> nat \<Rightarrow> 'v path \<Rightarrow> error option \<times> node list" where
  "load_path h self_root p =
     (case load_keys h self_root None (butlast (fst p)) of
        (Inl e, h1) \<Rightarrow> (Some e, h1)
      | (Inr (rt, branch), h1) \<Rightarrow> attach_leaf h1 rt branch p)"

fun load_paths :: "node list \<Rightarrow> nat \<Rightarrow> 'v path list \<Rightarrow> error option \<times> node list" where
  "load_paths h self_root [] = (None, h)"
| "load_paths h self_root (p # ps) =
     (case load_path h self_root p of
        (Some e, h1) \<Rightarrow> (Some e, h1)
      | (None, h1) \<Rightarrow> load_paths h1 self_root ps)"

definition load :: "'v model \<Rightarrow> (error + unit) \<times> 'v model" where
  "load m =
     (let m1 = m\<lparr>signals := signals m @ [BeginResetModel], paths := []\<rparr>
      in case heap m1 ! root m1 of
           LeafNode l p pth \<Rightarrow> (Inl AttributeError, m1)
         | BranchNode n p cs \<Rightarrow>
             (let m2 = m1\<lparr>heap := (heap m1)[root m1 := BranchNode n p []]\<rparr>;
                  m3 = m2\<lparr>paths := paths m2 @ getPaths (data_dict m2) []\<rparr>
              in case load_paths (heap m3) (root m3) (paths m3) of
                   (Some e, h) \<Rightarrow> (Inl e, m3\<lparr>heap := h\<rparr>)
                 | (None, h) \<Rightarrow>
                     (Inr (), m3\<lparr>heap := h, signals := signals m3 @ [EndResetModel]\<rparr>)))"


subsection \<open>Queries\<close>

definition rowCount :: "'v model \<Rightarrow> QModelIndex \<Rightarrow> (error + int) \<times> 'v model" where
  "rowCount m parent_index =
     (case nodeFromIndex m parent_index of
        (None, m1) \<Rightarrow> (Inr 0, m1)
      | (Some a, m1) \<Rightarrow>
          (case heap m1 ! a of
             LeafNode l p pth \<Rightarrow> (Inr 0, m1)
           | BranchNode n p cs \<Rightarrow> (Inr (int (length cs)), m1)))"

definition columnCount :: "'v model \<Rightarrow> QModelIndex \<Rightarrow> (error + int) \<times> 'v model" where
  "columnCount m parent_index = (Inr (int (length (headers m))), m)"

text \<open>
  \<^verbatim>\<open>data\<close>. For the edit role the method calls itself with the display role, which
  on a valid index reaches the display branch; \<open>data_display\<close> is that branch. The
  builtin \<^verbatim>\<open>str\<close> on a value is a parameter. \<^verbatim>\<open>if node:\<close> is Python's truth test.
\<close>

definition data_display ::
  "('v dval \<Rightarrow> string) \<Rightarrow> 'v model \<Rightarrow> QModelIndex \<Rightarrow> (error + variant) \<times> 'v model"
where
  "data_display str m i =
     (case nodeFromIndex m i of
        (None, m1) \<Rightarrow> (Inr QVariant, m1)
      | (Some a, m1) \<Rightarrow>
          if \<not> truthy (heap m1 ! a) then (Inr QVariant, m1)
          else
            (case heap m1 ! a of
               BranchNode n p cs \<Rightarrow>
                 if column i = 0 then (Inr (Text n), m1) else (Inr (Text []), m1)
             | LeafNode l p pth \<Rightarrow>
                 if column i = 0 then (Inr (Text l), m1)
                 else if column i = 1 then
                   (case leaf_value m1 a of
                      Inl e \<Rightarrow> (Inl e, m1)
                    | Inr v \<Rightarrow> (Inr (Text (str v)), m1))
                 else (Inr QVariant, m1)))"

definition data ::
  "('v dval \<Rightarrow> string) \<Rightarrow> 'v model \<Rightarrow> QModelIndex \<Rightarrow> ItemDataRole \<Rightarrow> (error + variant) \<times> 'v model"
where
  "data str m i role =
     (if \<not> isValid i then (Inr QVariant, m)
      else if role = EditRole then data_display str m i
      else if role = FontRole \<and> column i = 0 then (Inr BoldFont, m)
      else if role = TextAlignmentRole then (Inr (QVariant_int 33), m)
      else if role = DisplayRole then data_display str m i
      else (Inr QVariant, m))"

text \<open>
  \<^verbatim>\<open>setData\<close>. The loop \<^verbatim>\<open>for x in node.path[:-1]: dic = dic[x]\<close> followed by
  \<^verbatim>\<open>dic[node.path[-1]] = value\<close> assigns inside the dictionary it has walked to; seen
  from the root that is \<open>assign_nested\<close>. Walking into a scalar makes the next
  subscript raise \<^verbatim>\<open>TypeError\<close>.
\<close>

fun assign_nested :: "'v dict \<Rightarrow> string list \<Rightarrow> string \<Rightarrow> 'v \<Rightarrow> error + 'v dict" where
  "assign_nested dic [] k value = Inr (dict_setitem dic k (Scalar value))"
| "assign_nested dic (x # xs) k value =
     (case dict_getitem dic x of
        Inl e \<Rightarrow> Inl e
      | Inr (Scalar v) \<Rightarrow> Inl TypeError
      | Inr (Dict d) \<Rightarrow>
          (case assign_nested d xs k value of
             Inl e \<Rightarrow> Inl e
           | Inr d' \<Rightarrow> Inr (dict_setitem dic x (Dict d'))))"

definition setData ::
  "'v model \<Rightarrow> QModelIndex \<Rightarrow> 'v \<Rightarrow> ItemDataRole \<Rightarrow> (error + bool) \<times> 'v model"
where
  "setData m i value role =
     (if \<not> isValid i then (Inr False, m)
      else if role = EditRole then
        (if column i = 1 then
           (case nodeFromIndex m i of
              (None, m1) \<Rightarrow> (Inr False, m1)
            | (Some a, m1) \<Rightarrow>
                (case heap m1 ! a of
                   BranchNode n p cs \<Rightarrow> (Inr False, m1)
                 | LeafNode lbl p pth \<Rightarrow>
                     (case leaf_value m1 a of
                        Inl e \<Rightarrow> (Inl e, m1)
                      | Inr old_value \<Rightarrow>
                          if old_value = Scalar value then (Inr False, m1)
                          else
                            (case (if pth \<noteq> [] then
                                     assign_nested (data_dict m1) (butlast pth) (last pth) value
                                   else Inr (dict_setitem (data_dict m1) lbl (Scalar value))) of
                               Inl e \<Rightarrow> (Inl e, m1)
                             | Inr dic \<Rightarrow> (Inr True, m1\<lparr>data_dict := dic\<rparr>)))))
         else (Inr False, m))
      else (Inr False, m))"

definition headerData ::
  "'v model \<Rightarrow> int \<Rightarrow> Orientation \<Rightarrow> ItemDataRole \<Rightarrow> (error + variant) \<times> 'v model"
where
  "headerData m section orientation role =
     (if orientation = Horizontal then
        (if role = DisplayRole then
           (if 0 \<le> section \<and> section < int (length (headers m))
            then (Inr (Text (headers m ! nat section)), m)
            else (Inr QVariant, m))
         else if role = FontRole then (Inr BoldFont, m)
         else (Inr QVariant, m))
      else (Inr QVariant, m))"

text \<open>\<^verbatim>\<open>index\<close>: \<^verbatim>\<open>assert self.root\<close> is the truth test of the root branch.\<close>

definition index ::
  "'v model \<Rightarrow> int \<Rightarrow> int \<Rightarrow> QModelIndex \<Rightarrow> (error + QModelIndex) \<times> 'v model"
where
  "index m r c parent_index =
     (if \<not> truthy (heap m ! root m) then (Inl AssertionError, m)
      else
        (case nodeFromIndex m parent_index of
           (None, m1) \<Rightarrow> (Inl AssertionError, m1)
         | (Some b, m1) \<Rightarrow>
             (case childAtRow (heap m1) b r of
                Inl e \<Rightarrow> (Inl e, m1)
              | Inr child \<Rightarrow>
                  (case createIndex r c child of
                     Inl e \<Rightarrow> (Inl e, m1)
                   | Inr i \<Rightarrow> (Inr i, m1)))))"

definition parent :: "'v model \<Rightarrow> QModelIndex \<Rightarrow> (error + QModelIndex) \<times> 'v model" where
  "parent m child =
     (case nodeFromIndex m child of
        (None, m1) \<Rightarrow> (Inr QModelIndex_default, m1)
      | (Some a, m1) \<Rightarrow>
          (case node_parent (heap m1 ! a) of
             None \<Rightarrow> (Inr QModelIndex_default, m1)
           | Some p \<Rightarrow>
               (case node_parent (heap m1 ! p) of
                  None \<Rightarrow> (Inr QModelIndex_default, m1)
                | Some g \<Rightarrow>
                    (case rowOfChild (heap m1) g p of
                       Inl e \<Rightarrow> (Inl e, m1)
                     | Inr r \<Rightarrow>
                         if r = - 1 then (Inl AssertionError, m1)
                         else
                           (case createIndex r 0 (Some p) of
                              Inl e \<Rightarrow> (Inl e, m1)
                            | Inr i \<Rightarrow> (Inr i, m1))))))"

definition flags :: "'v model \<Rightarrow> QModelIndex \<Rightarrow> (error + ItemFlag set) \<times> 'v model" where
  "flags m i =
     (let fl = {ItemIsSelectable, ItemIsEnabled}
      in if column i = 1 then
           (case nodeFromIndex m i of
              (None, m1) \<Rightarrow> (Inr fl, m1)
            | (Some a, m1) \<Rightarrow>
                (case heap m1 ! a of
                   LeafNode l p pth \<Rightarrow> (Inr (fl \<union> {ItemIsEditable}), m1)
                 | BranchNode n p cs \<Rightarrow> (Inr fl, m1)))
         else (Inr fl, m))"


subsection \<open>Refreshing\<close>

text \<open>
  \<^verbatim>\<open>auto_refresh\<close> is the timer's callback. \<^verbatim>\<open>self.createIndex(0, 0)\<close> is an index
  of this model with a null internal pointer.
\<close>

definition auto_refresh :: "'v model \<Rightarrow> (error + unit) \<times> 'v model" where
  "auto_refresh m =
     (case createIndex 0 0 None of
        Inl e \<Rightarrow> (Inl e, m)
      | Inr i \<Rightarrow>
          (case rowCount m i of
             (Inl e, m1) \<Rightarrow> (Inl e, m1)
           | (Inr newRowCount, m1) \<Rightarrow>
               if priv_rowCount m1 \<noteq> newRowCount then
                 (let m2 = m1\<lparr>signals := signals m1 @ [ModelReset]\<rparr>;
                      m3 = m2\<lparr>priv_rowCount := newRowCount\<rparr>
                  in if priv_view m3
                     then (Inr (), m3\<lparr>signals := signals m3 @ [AutoresizeColumns]\<rparr>)
                     else (Inr (), m3))
               else (Inr (), m1)))"

definition refresh :: "'v model \<Rightarrow> (error + unit) \<times> 'v model" where
  "refresh m =
     (case load m of
        (Inl e, m1) \<Rightarrow> (Inl e, m1)
      | (Inr u, m1) \<Rightarrow> (Inr (), m1\<lparr>signals := signals m1 @ [ModelReset]\<rparr>))"

text \<open>
  \<^verbatim>\<open>__init__\<close>: the root branch is the first object; the timer is started (not
  modelled: the callback is \<open>auto_refresh\<close>) and the tree is loaded.
\<close>

definition init :: "'v dict \<Rightarrow> bool \<Rightarrow> (error + unit) \<times> 'v model" where
  "init design_options view =
     load \<lparr>heap = [BranchNode [] None []], root = 0, headers = [''Name'', ''Value''],
            paths = [], priv_rowCount = - 1, priv_view = view,
            data_dict = design_options, signals = []\<rparr>"

section \<open>Reading the tree off the store\<close>

text \<open>
  The tree of objects below a node, read off the store by following the children lists:
  every node with its address, its name or label and, for a leaf, its path. The
  traversal is bounded by the number of objects, which no tree in the store exceeds in
  depth. The shape of a tree forgets the addresses.
\<close>

datatype 'a tree = Branch 'a string "'a tree list" | Leaf 'a string "string list"

fun taddr :: "'a tree \<Rightarrow> 'a" where
  "taddr (Branch a n ks) = a"
| "taddr (Leaf a l pth) = a"

fun tname :: "'a tree \<Rightarrow> string" where
  "tname (Branch a n ks) = n"
| "tname (Leaf a l pth) = l"

fun kids :: "'a tree \<Rightarrow> 'a tree list" where
  "kids (Branch a n ks) = ks"
| "kids (Leaf a l pth) = []"

fun snapshot_at :: "nat \<Rightarrow> node list \<Rightarrow> nat \<Rightarrow> nat tree option" where
  "snapshot_at 0 h a = None"
| "snapshot_at (Suc fuel) h a =
     (if length h \<le> a then None
      else
        (case h ! a of
           LeafNode l p pth \<Rightarrow> Some (Leaf a l pth)
         | BranchNode n p cs \<Rightarrow>
             map_option (Branch a n) (those (map (\<lambda>kc. snapshot_at fuel h (snd kc)) cs))))"

definition snapshot :: "'v model \<Rightarrow> nat tree option" where
  "snapshot m = snapshot_at (length (heap m)) (heap m) (root m)"

definition shape_of :: "'a tree \<Rightarrow> unit tree" where
  "shape_of t = map_tree (\<lambda>a. ()) t"

definition shape :: "'v model \<Rightarrow> unit tree option" where
  "shape m = map_option shape_of (snapshot m)"

text \<open>The addresses of a tree, the root first.\<close>

fun addrs :: "'a tree \<Rightarrow> 'a list" where
  "addrs (Leaf a l pth) = [a]"
| "addrs (Branch a n ks) = a # concat (map addrs ks)"

text \<open>
  Flattening: the leaves from left to right, each with the names on the way down to it
  (the root has no name and is left out) followed by its label, and with its value.
\<close>

fun flatten_under :: "'v model \<Rightarrow> string list \<Rightarrow> nat tree \<Rightarrow> (string list \<times> (error + 'v dval)) list" where
  "flatten_under m cur (Leaf a l pth) = [(cur @ [l], leaf_value m a)]"
| "flatten_under m cur (Branch a n ks) = concat (map (flatten_under m (cur @ [n])) ks)"

definition flatten :: "'v model \<Rightarrow> (string list \<times> (error + 'v dval)) list option" where
  "flatten m =
     (case snapshot m of
        None \<Rightarrow> None
      | Some t \<Rightarrow> Some (concat (map (flatten_under m []) (kids t))))"

text \<open>
  The leaves and the branches of a tree by position: the names from below the root down
  to the node. A leaf is listed with the path it stores.
\<close>

fun leaf_positions :: "string list \<Rightarrow> 'a tree \<Rightarrow> (string list \<times> string list) list" where
  "leaf_positions cur (Leaf a l pth) = [(cur @ [l], pth)]"
| "leaf_positions cur (Branch a n ks) = concat (map (leaf_positions (cur @ [n])) ks)"

fun branch_positions :: "string list \<Rightarrow> 'a tree \<Rightarrow> string list list" where
  "branch_positions cur (Leaf a l pth) = []"
| "branch_positions cur (Branch a n ks) =
     (cur @ [n]) # concat (map (branch_positions (cur @ [n])) ks)"

definition leaves_below_root :: "'a tree \<Rightarrow> (string list \<times> string list) list" where
  "leaves_below_root t = concat (map (leaf_positions []) (kids t))"

definition branches_below_root :: "'a tree \<Rightarrow> string list list" where
  "branches_below_root t = concat (map (branch_positions []) (kids t))"

text \<open>The entries of a dictionary by key path: the scalars, and the nested dictionaries.\<close>

fun scalar_entries :: "'v dict \<Rightarrow> string list \<Rightarrow> string list list" where
  "scalar_entries [] cur = []"
| "scalar_entries ((k, Dict d) # rest) cur = scalar_entries d (cur @ [k]) @ scalar_entries rest cur"
| "scalar_entries ((k, Scalar v) # rest) cur = (cur @ [k]) # scalar_entries rest cur"

fun mapping_entries :: "'v dict \<Rightarrow> string list \<Rightarrow> string list list" where
  "mapping_entries [] cur = []"
| "mapping_entries ((k, Dict d) # rest) cur =
     (cur @ [k]) # mapping_entries d (cur @ [k]) @ mapping_entries rest cur"
| "mapping_entries ((k, Scalar v) # rest) cur = mapping_entries rest cur"

text \<open>
  The same, leaving out the nested dictionaries that hold no scalar at any depth.
\<close>

fun leafy_mapping_entries :: "'v dict \<Rightarrow> string list \<Rightarrow> string list list" where
  "leafy_mapping_entries [] cur = []"
| "leafy_mapping_entries ((k, Dict d) # rest) cur =
     (if getPaths d (cur @ [k]) = [] then []
      else (cur @ [k]) # leafy_mapping_entries d (cur @ [k]))
     @ leafy_mapping_entries rest cur"
| "leafy_mapping_entries ((k, Scalar v) # rest) cur = leafy_mapping_entries rest cur"

text \<open>
  The tree a dictionary stands for: a leaf for every scalar, a branch for every nested
  dictionary that holds a scalar at some depth, in the order of the keys.
\<close>

fun tree_of :: "'v dict \<Rightarrow> string list \<Rightarrow> unit tree list" where
  "tree_of [] cur = []"
| "tree_of ((k, Dict d) # rest) cur =
     (if getPaths d (cur @ [k]) = [] then [] else [Branch () k (tree_of d (cur @ [k]))])
     @ tree_of rest cur"
| "tree_of ((k, Scalar v) # rest) cur = Leaf () k (cur @ [k]) # tree_of rest cur"

text \<open>Two small dictionaries and a loaded model, used to run the methods on.\<close>

definition example_dict :: "int dict" where
  "example_dict = [(''a'', Scalar 1), (''x'', Dict [(''y'', Scalar 2), (''z'', Scalar 3)])]"

definition nested_dict :: "int dict" where
  "nested_dict = [(''x'', Dict [(''y'', Scalar 2)])]"

definition example_model :: "int model" where
  "example_model = snd (init example_dict True)"

definition nested_model :: "int model" where
  "nested_model = snd (init nested_dict True)"

text \<open>
  The root of a model is a branch without a parent, as \<^verbatim>\<open>__init__\<close> creates it.
  An index without a node is a valid index whose internal pointer is null, which is what
  \<^verbatim>\<open>index\<close> returns for a row that is out of range.
\<close>

definition root_ok :: "'v model \<Rightarrow> bool" where
  "root_ok m =
     (root m < length (heap m) \<and>
      (case heap m ! root m of
         BranchNode n p cs \<Rightarrow> p = None
       | LeafNode l p pth \<Rightarrow> False))"

definition no_node :: "QModelIndex \<Rightarrow> bool" where
  "no_node i = (isValid i \<and> internalPointer i = None)"

text \<open>An index whose column is beyond the two columns of the model.\<close>

definition column_out_of_range :: "QModelIndex \<Rightarrow> bool" where
  "column_out_of_range i = (isValid i \<and> 2 \<le> column i)"


text \<open>
  What \<^verbatim>\<open>load\<close> does for one path, on shapes: walk down the keys but the last,
  entering the first child of that name (it has to be a branch with children) or adding
  a new branch at the end, and add the leaf at the end of the branch reached. The result
  is undefined where the source would meet a leaf or a childless branch on the way.
\<close>

fun tree_insert :: "string list \<Rightarrow> string \<Rightarrow> string list \<Rightarrow> unit tree \<Rightarrow> unit tree option" where
  "tree_insert [] lbl pth (Branch () nm ks) = Some (Branch () nm (ks @ [Leaf () lbl pth]))"
| "tree_insert (k # keys) lbl pth (Branch () nm ks) =
     (case List.extract (\<lambda>c. tname c = k) ks of
        None \<Rightarrow> map_option (\<lambda>t. Branch () nm (ks @ [t])) (tree_insert keys lbl pth (Branch () k []))
      | Some (pre, c, post) \<Rightarrow>
          if kids c = [] then None
          else map_option (\<lambda>t. Branch () nm (pre @ t # post)) (tree_insert keys lbl pth c))"
| "tree_insert keys lbl pth (Leaf () l p) = None"

fun tree_insert_all :: "string list \<Rightarrow> 'v path list \<Rightarrow> unit tree \<Rightarrow> unit tree option" where
  "tree_insert_all cur [] t = Some t"
| "tree_insert_all cur (p # ps) t =
     (if fst p = [] then None
      else case tree_insert (butlast (fst p)) (last (fst p)) (cur @ fst p) t of
             None \<Rightarrow> None
           | Some t' \<Rightarrow> tree_insert_all cur ps t')"

text \<open>
  A tree with addresses is in the store: each node is at its address, with its name or
  label, its parent, and for a branch the names and addresses of its children in order.
  One store extends another around a tree when nothing outside the tree has changed and
  every address added to the tree is new.
\<close>

fun agrees :: "node list \<Rightarrow> nat option \<Rightarrow> nat tree \<Rightarrow> bool" where
  "agrees h par (Leaf a l pth) = (a < length h \<and> h ! a = LeafNode l par pth)"
| "agrees h par (Branch a n ks) =
     (a < length h \<and> h ! a = BranchNode n par (map (\<lambda>k. (tname k, taddr k)) ks)
      \<and> (\<forall>k\<in>set ks. agrees h (Some a) k))"

definition extends :: "node list \<Rightarrow> nat tree \<Rightarrow> node list \<Rightarrow> nat tree \<Rightarrow> bool" where
  "extends h t h' t' =
     (length h \<le> length h' \<and> (\<forall>x<length h. x \<notin> set (addrs t) \<longrightarrow> h' ! x = h ! x)
      \<and> set (addrs t') \<subseteq> set (addrs t) \<union> {length h..<length h'})"


text \<open>No two children of a branch share a name, at every level.\<close>

fun distinct_names :: "'a tree \<Rightarrow> bool" where
  "distinct_names (Leaf a l pth) = True"
| "distinct_names (Branch a n ks) = (distinct (map tname ks) \<and> (\<forall>k\<in>set ks. distinct_names k))"

text \<open>The dictionary \<^verbatim>\<open>{"x": {}}\<close>.\<close>

definition empty_nested_dict :: "int dict" where
  "empty_nested_dict = [(''x'', Dict [])]"


text \<open>The set of pairs that flattening yields.\<close>

definition flattened :: "'v model \<Rightarrow> (string list \<times> (error + 'v dval)) set" where
  "flattened m = (case flatten m of None \<Rightarrow> {} | Some xs \<Rightarrow> set xs)"







section \<open>Queries leave the model alone\<close>

lemma nodeFromIndex_state [simp]: "snd (nodeFromIndex m i) = m"
  by (simp add: nodeFromIndex_def)

lemma nodeFromIndex_cases:
  "nodeFromIndex m i = (if isValid i then internalPointer i else Some (root m), m)"
  by (simp add: nodeFromIndex_def)

lemma rowCount_state: "snd (rowCount m i) = m"
  by (simp add: rowCount_def nodeFromIndex_cases split: option.splits node.splits)

lemma columnCount_state: "snd (columnCount m i) = m"
  by (simp add: columnCount_def)

lemma data_display_state: "snd (data_display str m i) = m"
  by (simp add: data_display_def nodeFromIndex_cases split: option.splits node.splits sum.splits)

lemma data_state: "snd (data str m i role) = m"
  by (simp add: data_def data_display_state)

lemma headerData_state: "snd (headerData m s orientation role) = m"
  by (simp add: headerData_def)

lemma index_state: "snd (index m r c i) = m"
  by (simp add: index_def nodeFromIndex_cases split: option.splits sum.splits)

lemma parent_state: "snd (parent m i) = m"
  by (simp add: parent_def nodeFromIndex_cases split: option.splits sum.splits)

lemma flags_state: "snd (flags m i) = m"
  by (simp add: flags_def nodeFromIndex_cases Let_def split: option.splits node.splits)

lemma setData_tree:
  "heap (snd (setData m i v role)) = heap m \<and> root (snd (setData m i v role)) = root m
   \<and> paths (snd (setData m i v role)) = paths m"
  by (simp add: setData_def nodeFromIndex_cases split: option.splits node.splits sum.splits)

lemma load_data_dict: "data_dict (snd (load m)) = data_dict m"
  by (simp add: load_def Let_def split: node.splits prod.splits option.splits)

lemma load_root: "root (snd (load m)) = root m"
  by (simp add: load_def Let_def split: node.splits prod.splits option.splits)

lemma auto_refresh_frame:
  "heap (snd (auto_refresh m)) = heap m \<and> root (snd (auto_refresh m)) = root m
   \<and> paths (snd (auto_refresh m)) = paths m \<and> data_dict (snd (auto_refresh m)) = data_dict m"
  by (simp add: auto_refresh_def rowCount_def nodeFromIndex_cases createIndex_def mk_index_def c_int_def isValid_def Let_def)

lemma refresh_data_dict: "data_dict (snd (refresh m)) = data_dict m"
  using load_data_dict[of m] by (cases "load m") (auto simp: refresh_def split: sum.splits)

text \<open>
  C10. Every query (\<^verbatim>\<open>rowCount\<close>, \<^verbatim>\<open>columnCount\<close>, \<^verbatim>\<open>data\<close>,
  \<^verbatim>\<open>headerData\<close>, \<^verbatim>\<open>flags\<close>, \<^verbatim>\<open>parent\<close>, \<^verbatim>\<open>index\<close>,
  \<^verbatim>\<open>nodeFromIndex\<close>) returns the model it was given: the tree (store, root, paths)
  and the source dictionary are unchanged, whether the query returns or raises.
  \<^verbatim>\<open>setData\<close> leaves the tree unchanged, \<^verbatim>\<open>load\<close> and \<^verbatim>\<open>refresh\<close>
  leave the source dictionary unchanged, and \<^verbatim>\<open>auto_refresh\<close> leaves both unchanged.
\<close>

theorem queries_frame:
  "snd (rowCount m i) = m \<and> snd (columnCount m i) = m \<and> snd (data str m i role) = m
   \<and> snd (headerData m s orientation role) = m \<and> snd (flags m i) = m
   \<and> snd (parent m i) = m \<and> snd (index m r c i) = m \<and> snd (nodeFromIndex m i) = m
   \<and> heap (snd (setData m i v role)) = heap m \<and> root (snd (setData m i v role)) = root m
   \<and> paths (snd (setData m i v role)) = paths m
   \<and> data_dict (snd (load m)) = data_dict m \<and> data_dict (snd (refresh m)) = data_dict m
   \<and> heap (snd (auto_refresh m)) = heap m \<and> root (snd (auto_refresh m)) = root m
   \<and> paths (snd (auto_refresh m)) = paths m \<and> data_dict (snd (auto_refresh m)) = data_dict m"
  using rowCount_state columnCount_state data_state headerData_state flags_state parent_state
    index_state nodeFromIndex_state setData_tree load_data_dict refresh_data_dict
    auto_refresh_frame
  by metis

theorem queries_frame_witness:
  "snd (rowCount example_model (mk_index 0 0 (Some 1))) = example_model
   \<and> snd (data (\<lambda>v. []) example_model (mk_index 0 1 (Some 1)) DisplayRole) = example_model
   \<and> snd (parent example_model (mk_index 0 0 (Some 3))) = example_model
   \<and> heap (snd (setData example_model (mk_index 0 1 (Some 1)) 7 EditRole)) = heap example_model
   \<and> data_dict (snd (load example_model)) = data_dict example_model"
  using queries_frame[where m = example_model and i = "mk_index 0 0 (Some 1)"]
    queries_frame[where m = example_model and i = "mk_index 0 1 (Some 1)"
      and str = "\<lambda>v. []" and role = DisplayRole]
    queries_frame[where m = example_model and i = "mk_index 0 1 (Some 1)"
      and v = 7 and role = EditRole]
    queries_frame[where m = example_model and i = "mk_index 0 0 (Some 3)"]
  by simp

section \<open>Indexes without a node\<close>

lemma no_node_queries:
  assumes "no_node i"
  shows "rowCount m i = (Inr 0, m)"
    and "setData m i v role = (Inr False, m)"
    and "parent m i = (Inr QModelIndex_default, m)"
    and "flags m i = (Inr {ItemIsSelectable, ItemIsEnabled}, m)"
    and "data str m i role =
           (Inr (if role = FontRole \<and> column i = 0 then BoldFont
                 else if role = TextAlignmentRole then QVariant_int 33 else QVariant), m)"
    and "index m r c i = (Inl AssertionError, m)"
  using assms
  by (auto simp: no_node_def rowCount_def setData_def parent_def flags_def data_def
      data_display_def index_def nodeFromIndex_cases Let_def)

lemma invalid_queries:
  assumes "\<not> isValid i" "root_ok m"
  shows "rowCount m i = (Inr (int (length (children (heap m ! root m)))), m)"
    and "setData m i v role = (Inr False, m)"
    and "parent m i = (Inr QModelIndex_default, m)"
    and "flags m i = (Inr {ItemIsSelectable, ItemIsEnabled}, m)"
    and "data str m i role = (Inr QVariant, m)"
    and "index m r c i =
           (if children (heap m ! root m) = [] then (Inl AssertionError, m)
            else if c_int r \<and> c_int c then
              (Inr (mk_index r c
                 (if 0 \<le> r \<and> r < int (length (children (heap m ! root m)))
                  then Some (snd (children (heap m ! root m) ! nat r)) else None)), m)
            else (Inl OverflowError, m))"
  using assms
  by (auto simp: root_ok_def rowCount_def setData_def parent_def flags_def data_def
      index_def childAtRow_def createIndex_def nodeFromIndex_cases Let_def split: node.splits)

lemma column_out_of_range_queries:
  assumes "column_out_of_range i"
  shows "setData m i v role = (Inr False, m)"
    and "flags m i = (Inr {ItemIsSelectable, ItemIsEnabled}, m)"
    and "snd (data str m i role) = m"
    and "fst (data str m i role) \<in> {Inr QVariant, Inr (Text []), Inr (QVariant_int 33)}"
  using assms
  by (auto simp: column_out_of_range_def setData_def flags_def data_def data_display_def
      nodeFromIndex_cases Let_def split: option.splits node.splits)

lemma rowCount_returns: "\<exists>n. rowCount m i = (Inr n, m)"
  by (simp add: rowCount_def nodeFromIndex_cases split: option.splits node.splits)

text \<open>
  C8, as the code has it. Take an invalid index, a valid index without a node (a row out
  of range), or a valid index whose column is out of range. On each of them
  \<^verbatim>\<open>setData\<close> returns \<^verbatim>\<open>False\<close>, \<^verbatim>\<open>flags\<close> returns selectable and enabled,
  \<^verbatim>\<open>data\<close> returns a null variant, an empty string or the font or alignment hint, and
  \<^verbatim>\<open>rowCount\<close> returns a number; none of them raises and the model is unchanged. On
  the first two kinds \<^verbatim>\<open>parent\<close> returns the invalid index, \<^verbatim>\<open>rowCount\<close> is the
  number of children of the root for the invalid index and 0 for an index without a
  node, and \<^verbatim>\<open>data\<close> is null but for the hints. \<^verbatim>\<open>index\<close> is different. With a
  parent index that has no node it fails an assertion. With the invalid index as parent
  it fails \<^verbatim>\<open>assert self.root\<close> when the root has no children; otherwise it returns
  the index of the root's child at that row (with a null pointer when the row is out of
  range) if row and column fit a C integer, and raises \<^verbatim>\<open>OverflowError\<close> if not.
\<close>

theorem no_node_or_invalid_index:
  assumes "root_ok m" and "\<not> isValid i \<or> no_node i \<or> column_out_of_range i"
  shows "setData m i v role = (Inr False, m)
    \<and> flags m i = (Inr {ItemIsSelectable, ItemIsEnabled}, m)
    \<and> snd (data str m i role) = m
    \<and> fst (data str m i role)
        \<in> {Inr QVariant, Inr (Text []), Inr BoldFont, Inr (QVariant_int 33)}
    \<and> (\<exists>n. rowCount m i = (Inr n, m))
    \<and> (\<not> isValid i \<or> no_node i \<longrightarrow>
          parent m i = (Inr QModelIndex_default, m)
        \<and> rowCount m i =
            (Inr (if isValid i then 0 else int (length (children (heap m ! root m)))), m)
        \<and> data str m i role =
            (Inr (if isValid i \<and> role = FontRole \<and> column i = 0 then BoldFont
                  else if isValid i \<and> role = TextAlignmentRole then QVariant_int 33
                  else QVariant), m)
        \<and> index m r c i =
            (if isValid i \<or> children (heap m ! root m) = [] then (Inl AssertionError, m)
             else if c_int r \<and> c_int c then
               (Inr (mk_index r c
                  (if 0 \<le> r \<and> r < int (length (children (heap m ! root m)))
                   then Some (snd (children (heap m ! root m) ! nat r)) else None)), m)
             else (Inl OverflowError, m)))"
proof -
  consider (inv) "\<not> isValid i" | (non) "isValid i" "no_node i"
    | (col) "isValid i" "\<not> no_node i" "column_out_of_range i"
    using assms(2) by (auto simp: no_node_def)
  then show ?thesis
  proof cases
    case inv
    then show ?thesis using rowCount_returns[of m i]
      by (simp add: invalid_queries[OF inv assms(1)])
  next
    case non
    then show ?thesis using rowCount_returns[of m i]
      by (simp add: no_node_queries[OF non(2)])
  next
    case col
    have "fst (data str m i role) \<in> {Inr QVariant, Inr (Text []), Inr (QVariant_int 33)}"
      using column_out_of_range_queries(4)[OF col(3)] .
    then have "fst (data str m i role)
        \<in> {Inr QVariant, Inr (Text []), Inr BoldFont, Inr (QVariant_int 33)}"
      by auto
    then show ?thesis using rowCount_returns[of m i] col(1,2)
      by (simp add: column_out_of_range_queries(1-3)[OF col(3)])
  qed
qed

theorem no_node_or_invalid_index_witness:
  "root_ok example_model \<and> no_node (mk_index 5 0 None)
   \<and> setData example_model (mk_index 5 0 None) 7 EditRole = (Inr False, example_model)
   \<and> rowCount example_model (mk_index 5 0 None) = (Inr 0, example_model)
   \<and> index example_model 0 0 (mk_index 5 0 None) = (Inl AssertionError, example_model)
   \<and> column_out_of_range (mk_index 0 5 (Some 1))
   \<and> setData example_model (mk_index 0 5 (Some 1)) 7 EditRole = (Inr False, example_model)"
proof -
  have r: "root_ok example_model" by code_simp
  have n: "no_node (mk_index 5 0 None)" by code_simp
  have v: "isValid (mk_index 5 0 None)" by code_simp
  have c: "column_out_of_range (mk_index 0 5 (Some 1))" by code_simp
  have n': "\<not> isValid (mk_index 5 0 None) \<or> no_node (mk_index 5 0 None)
      \<or> column_out_of_range (mk_index 5 0 None)"
    using n by simp
  have c': "\<not> isValid (mk_index 0 5 (Some 1)) \<or> no_node (mk_index 0 5 (Some 1))
      \<or> column_out_of_range (mk_index 0 5 (Some 1))"
    using c by simp
  show ?thesis
    using no_node_or_invalid_index[OF r n', where v = 7 and role = EditRole and r = 0 and c = 0]
      no_node_or_invalid_index[OF r c', where v = 7 and role = EditRole]
      r n v c by simp
qed

text \<open>
  C8 as stated fails: asking \<^verbatim>\<open>index\<close> for row 5 of a root with two children gives a
  valid index without a node, and \<^verbatim>\<open>index\<close> with that index as parent fails the
  assertion \<^verbatim>\<open>branch is not None\<close>.
\<close>

theorem index_out_of_range_counterexample:
  "fst (index example_model 5 0 QModelIndex_default) = Inr (mk_index 5 0 None)
   \<and> isValid (mk_index 5 0 None) \<and> internalPointer (mk_index 5 0 None) = None
   \<and> fst (index example_model 0 0 (mk_index 5 0 None)) = Inl AssertionError"
  by code_simp


section \<open>The timer callback\<close>

text \<open>
  C2 against the code. The model is loaded from \<^verbatim>\<open>{"a": 1, "x": {"y": 2, "z": 3}}\<close>,
  then the key \<^verbatim>\<open>"b"\<close> is added to the source dictionary from outside.
  \<^verbatim>\<open>auto_refresh\<close> emits \<^verbatim>\<open>modelReset\<close> and asks the view to resize its
  columns, but it does not call \<^verbatim>\<open>load\<close>: the store and the tree are as before and
  no node for \<^verbatim>\<open>"b"\<close> appears. The row count it polls is that of an index without a
  node, which is 0 whatever the root holds, so a second call does nothing at all.
\<close>

theorem auto_refresh_does_not_rebuild:
  "(let m1 = example_model\<lparr>data_dict := data_dict example_model @ [(''b'', Scalar 2)]\<rparr>;
        m2 = snd (auto_refresh m1)
    in fst (auto_refresh m1) = Inr () \<and> heap m2 = heap m1 \<and> shape m2 = shape example_model
       \<and> shape m2 = Some (Branch () [] [Leaf () ''a'' [''a''],
            Branch () ''x'' [Leaf () ''y'' [''x'', ''y''], Leaf () ''z'' [''x'', ''z'']]])
       \<and> map fst (getPaths (data_dict m2) []) = [[''a''], [''x'', ''y''], [''x'', ''z''], [''b'']]
       \<and> signals m2 = signals m1 @ [ModelReset, AutoresizeColumns]
       \<and> priv_rowCount m2 = 0 \<and> auto_refresh m2 = (Inr (), m2))"
  by code_simp

section \<open>Inserting the paths of a dictionary gives its tree\<close>

lemma tree_insert_all_append:
  "tree_insert_all cur (ps @ qs) t = (case tree_insert_all cur ps t of None \<Rightarrow> None | Some t' \<Rightarrow> tree_insert_all cur qs t')"
  by (induction ps arbitrary: t) (auto split: option.splits)

lemma tree_insert_keeps_root:
  "tree_insert keys lbl pth t = Some t' \<Longrightarrow> \<exists>ks'. t' = Branch (taddr t) (tname t) ks' \<and> ks' \<noteq> []"
  by (cases t; cases keys) (auto split: option.splits if_splits)

lemma getPaths_append:
  "getPaths d (cur @ cur') = map (\<lambda>p. (cur @ fst p, snd p)) (getPaths d cur')"
  by (induction d cur' arbitrary: cur rule: getPaths.induct) (auto simp flip: append_assoc)

lemma getPaths_cons:
  "getPaths d (k # cur) = map (\<lambda>p. (k # fst p, snd p)) (getPaths d cur)"
  using getPaths_append[of d "[k]" cur] by simp

lemma getPaths_keys_nonempty: "p \<in> set (getPaths d cur) \<Longrightarrow> fst p \<noteq> []"
  by (induction d cur rule: getPaths.induct) auto

lemma getPaths_empty_iff: "getPaths d cur = [] \<longleftrightarrow> getPaths d [] = []"
  using getPaths_append[of d cur "[]"] by simp

lemma tree_of_names: "set (map tname (tree_of d cur)) \<subseteq> set (map fst d)"
  by (induction d cur rule: tree_of.induct) auto

lemma tree_insert_all_into_last:
  assumes "k \<notin> set (map tname cs)" "ks \<noteq> []" "\<forall>p\<in>set ps. fst p \<noteq> []"
  shows "tree_insert_all cur (map (\<lambda>p. (k # fst p, snd p)) ps) (Branch () nm (cs @ [Branch () k ks]))
       = map_option (\<lambda>t. Branch () nm (cs @ [t])) (tree_insert_all (cur @ [k]) ps (Branch () k ks))"
  using assms
proof (induction ps arbitrary: ks)
  case Nil
  then show ?case by simp
next
  case (Cons p ps)
  have ex: "List.extract (\<lambda>c. tname c = k) (cs @ [Branch () k ks]) = Some (cs, Branch () k ks, [])"
    using Cons.prems(1) by (auto simp: extract_Some_iff)
  show ?case
  proof (cases "tree_insert (butlast (fst p)) (last (fst p)) (cur @ k # fst p) (Branch () k ks)")
    case None
    then show ?thesis using Cons.prems ex by simp
  next
    case (Some t)
    then obtain ks' where t: "t = Branch () k ks'" "ks' \<noteq> []"
      using tree_insert_keeps_root by fastforce
    show ?thesis using Cons.prems ex Some t Cons.IH[of ks'] by simp
  qed
qed

lemma tree_insert_all_new_child:
  assumes "k \<notin> set (map tname cs)" "ps \<noteq> []" "\<forall>p\<in>set ps. fst p \<noteq> []"
  shows "tree_insert_all cur (map (\<lambda>p. (k # fst p, snd p)) ps) (Branch () nm cs)
       = map_option (\<lambda>t. Branch () nm (cs @ [t])) (tree_insert_all (cur @ [k]) ps (Branch () k []))"
proof -
  obtain p ps' where ps: "ps = p # ps'" using assms(2) by (cases ps) auto
  have ex: "List.extract (\<lambda>c. tname c = k) cs = None"
    using assms(1) by (auto simp: extract_None_iff)
  show ?thesis
  proof (cases "tree_insert (butlast (fst p)) (last (fst p)) (cur @ k # fst p) (Branch () k [])")
    case None
    then show ?thesis using assms ex ps by simp
  next
    case (Some t)
    then obtain ks' where t: "t = Branch () k ks'" "ks' \<noteq> []"
      using tree_insert_keeps_root by fastforce
    show ?thesis
      using assms ex ps Some t tree_insert_all_into_last[of k cs ks' ps' cur nm] by simp
  qed
qed

lemma tree_insert_all_getPaths:
  assumes "wf_dict d" "set (map tname cs) \<inter> set (map fst d) = {}"
  shows "tree_insert_all cur (getPaths d []) (Branch () nm cs) = Some (Branch () nm (cs @ tree_of d cur))"
  using assms
proof (induction d cur arbitrary: cs nm rule: tree_of.induct)
  case (1 cur)
  then show ?case by simp
next
  case (2 k d rest cur)
  have k: "k \<notin> set (map tname cs)" "k \<notin> set (map fst rest)" and wf: "wf_dict d" "wf_dict rest"
    and dj: "set (map tname cs) \<inter> set (map fst rest) = {}"
    using "2.prems" by auto
  show ?case
  proof (cases "getPaths d [] = []")
    case True
    then show ?thesis
      using "2.IH"(2)[OF wf(2) dj, of nm] getPaths_empty_iff[of d "cur @ [k]"]
      by (simp add: getPaths_cons[of d k "[]"])
  next
    case False
    have ne: "\<forall>p\<in>set (getPaths d []). fst p \<noteq> []"
      using getPaths_keys_nonempty by blast
    have ne': "getPaths d (cur @ [k]) \<noteq> []"
      using False getPaths_empty_iff[of d "cur @ [k]"] by simp
    have sub: "tree_insert_all (cur @ [k]) (getPaths d []) (Branch () k [])
               = Some (Branch () k (tree_of d (cur @ [k])))"
      using "2.IH"(1)[OF ne' wf(1), of "[]" k] by simp
    have dj': "set (map tname (cs @ [Branch () k (tree_of d (cur @ [k]))])) \<inter> set (map fst rest) = {}"
      using dj k by auto
    show ?thesis
      using False getPaths_empty_iff[of d "cur @ [k]"]
        tree_insert_all_new_child[OF k(1) False ne, of cur nm] sub
        "2.IH"(2)[OF wf(2) dj', of nm]
      by (simp add: getPaths_cons[of d k "[]"] tree_insert_all_append)
  qed
next
  case (3 k v rest cur)
  have k: "k \<notin> set (map fst rest)" and wf: "wf_dict rest"
    and dj: "set (map tname (cs @ [Leaf () k (cur @ [k])])) \<inter> set (map fst rest) = {}"
    using "3.prems" by auto
  show ?case using "3.IH"[OF wf dj, of nm] by simp
qed


section \<open>The store after load\<close>

lemma shape_of_simps [simp]:
  "shape_of (Branch a n ks) = Branch () n (map shape_of ks)"
  "shape_of (Leaf a l pth) = Leaf () l pth"
  by (simp_all add: shape_of_def cong: map_cong)

lemma tname_shape_of [simp]: "tname (shape_of t) = tname t"
  by (cases t) simp_all

lemma kids_shape_of [simp]: "kids (shape_of t) = map shape_of (kids t)"
  by (cases t) simp_all

lemma taddr_in_addrs [simp]: "taddr t \<in> set (addrs t)"
  by (cases t) simp_all

lemma agrees_lt: "agrees h par t \<Longrightarrow> x \<in> set (addrs t) \<Longrightarrow> x < length h"
  by (induction h par t rule: agrees.induct) auto

lemma agrees_frame:
  "agrees h par t \<Longrightarrow> length h \<le> length h' \<Longrightarrow> (\<forall>x\<in>set (addrs t). h' ! x = h ! x)
   \<Longrightarrow> agrees h' par t"
  by (induction h par t rule: agrees.induct) auto

lemma childname_set_parent [simp]: "childname (set_parent q x) = childname x"
  by (cases x) simp_all

lemma insertChild_new:
  assumes "b < length h" "h ! b = BranchNode n p cs"
  shows "\<exists>h'. insertChild (h @ [x]) b (length h) = Inr h' \<and> length h' = Suc (length h)
           \<and> h' ! b = BranchNode n p (cs @ [(childname x, length h)])
           \<and> h' ! length h = set_parent (Some b) x
           \<and> (\<forall>y<length h. y \<noteq> b \<longrightarrow> h' ! y = h ! y)"
  using assms by (simp add: insertChild_def nth_append Let_def nth_list_update)

lemma lookup_kids_None:
  "List.extract (\<lambda>c. tname c = key) (map shape_of ks) = None
   \<Longrightarrow> map_of (map (\<lambda>k. (tname k, taddr k)) ks) key = None"
  by (auto simp: extract_None_iff map_of_eq_None_iff image_iff)

lemma lookup_kids_Some:
  assumes "List.extract (\<lambda>c. tname c = key) (map shape_of ks) = Some (pre', c', post')"
  shows "\<exists>pre c post. ks = pre @ c # post \<and> map shape_of pre = pre' \<and> shape_of c = c'
           \<and> map shape_of post = post' \<and> tname c = key
           \<and> map_of (map (\<lambda>k. (tname k, taddr k)) ks) key = Some (taddr c)"
proof -
  from assms have eq: "map shape_of ks = pre' @ c' # post'" and c': "tname c' = key"
    and pre': "\<forall>y\<in>set pre'. tname y \<noteq> key"
    by (auto simp: extract_Some_iff)
  from eq obtain pre c post where ks: "ks = pre @ c # post" "map shape_of pre = pre'"
    "shape_of c = c'" "map shape_of post = post'"
    by (auto simp: map_eq_append_conv map_eq_Cons_conv)
  have "\<forall>y\<in>set pre. tname y \<noteq> key" using pre' ks(2) by auto
  then have "map_of (map (\<lambda>k. (tname k, taddr k)) pre) key = None"
    by (auto simp: map_of_eq_None_iff image_iff)
  then have "map_of (map (\<lambda>k. (tname k, taddr k)) ks) key = Some (taddr c)"
    using ks c' by (auto simp: map_add_def)
  moreover have "tname c = key" using ks c' by auto
  ultimately show ?thesis using ks by blast
qed

lemma attach_leaf_refines:
  assumes ag: "agrees h par (Branch a nm ks)" and di: "distinct (addrs (Branch a nm ks))"
    and br: "branch = None \<or> branch = Some a" and ne: "fst p \<noteq> []"
  shows "\<exists>h'. attach_leaf h a branch p = (None, h')
           \<and> agrees h' par (Branch a nm (ks @ [Leaf (length h) (last (fst p)) (fst p)]))
           \<and> length h' = Suc (length h) \<and> (\<forall>x<length h. x \<noteq> a \<longrightarrow> h' ! x = h ! x)"
proof -
  let ?cs = "map (\<lambda>k. (tname k, taddr k)) ks"
  let ?x = "LeafNode (last (fst p)) (Some a) (fst p)"
  have a: "a < length h" and ha: "h ! a = BranchNode nm par ?cs"
    and kids: "\<forall>k\<in>set ks. agrees h (Some a) k"
    using ag by auto
  have tg: "(if py_not h branch then a else the branch) = a"
    using br by (auto simp: py_not_def)
  obtain h' where h': "insertChild (h @ [?x]) a (length h) = Inr h'" "length h' = Suc (length h)"
    "h' ! a = BranchNode nm par (?cs @ [(childname ?x, length h)])"
    "h' ! length h = set_parent (Some a) ?x"
    "\<forall>y<length h. y \<noteq> a \<longrightarrow> h' ! y = h ! y"
    using insertChild_new[OF a ha, of ?x] by blast
  have run: "attach_leaf h a branch p = (None, h')"
    using ne tg h'(1) by (simp add: attach_leaf_def Let_def)
  have old: "agrees h' (Some a) k" if "k \<in> set ks" for k
  proof (rule agrees_frame[of h "Some a" k])
    show "agrees h (Some a) k" using kids that by blast
    show "length h \<le> length h'" using h'(2) by simp
    show "\<forall>x\<in>set (addrs k). h' ! x = h ! x"
    proof
      fix x assume x: "x \<in> set (addrs k)"
      have "x < length h" using agrees_lt kids that x by blast
      moreover have "x \<noteq> a" using di that x by auto
      ultimately show "h' ! x = h ! x" using h'(5) by blast
    qed
  qed
  have "agrees h' par (Branch a nm (ks @ [Leaf (length h) (last (fst p)) (fst p)]))"
    using a h'(2,3,4) old by auto
  then show ?thesis using run h'(2,5) by blast
qed

lemma distinct_append_fresh:
  "distinct xs \<Longrightarrow> distinct ys \<Longrightarrow> \<forall>x\<in>set xs. x < n \<Longrightarrow> \<forall>y\<in>set ys. (n::nat) \<le> y
   \<Longrightarrow> distinct (xs @ ys)"
  by fastforce

lemma distinct_replace:
  "distinct (xs @ ys @ zs) \<Longrightarrow> distinct ys'
   \<Longrightarrow> \<forall>y\<in>set ys'. y \<in> set ys \<or> y \<notin> set xs \<union> set zs
   \<Longrightarrow> distinct (xs @ ys' @ zs)"
  by auto

lemma load_keys_refines:
  assumes "agrees h par (Branch a nm ks)" "distinct (addrs (Branch a nm ks))"
    "branch = None \<or> branch = Some a" "fst p \<noteq> []"
    "tree_insert keys (last (fst p)) (fst p) (Branch () nm (map shape_of ks)) = Some T'"
  shows "\<exists>rt br h1 h' ks'.
           load_keys h a branch keys = (Inr (rt, br), h1) \<and> attach_leaf h1 rt br p = (None, h')
           \<and> agrees h' par (Branch a nm ks') \<and> distinct (addrs (Branch a nm ks'))
           \<and> T' = Branch () nm (map shape_of ks')
           \<and> extends h (Branch a nm ks) h' (Branch a nm ks')"
  using assms
proof (induction keys arbitrary: h par a nm ks branch T')
  case Nil
  obtain h' where h': "attach_leaf h a branch p = (None, h')"
    "agrees h' par (Branch a nm (ks @ [Leaf (length h) (last (fst p)) (fst p)]))"
    "length h' = Suc (length h)" "\<forall>x<length h. x \<noteq> a \<longrightarrow> h' ! x = h ! x"
    using attach_leaf_refines[OF Nil.prems(1-4)] by blast
  let ?ks' = "ks @ [Leaf (length h) (last (fst p)) (fst p)]"
  have lt: "\<forall>x\<in>set (addrs (Branch a nm ks)). x < length h"
    using agrees_lt[OF Nil.prems(1)] by blast
  have d: "distinct (addrs (Branch a nm ?ks'))"
    using Nil.prems(2) lt by auto
  have T: "T' = Branch () nm (map shape_of ?ks')"
    using Nil.prems(5) by simp
  have e: "extends h (Branch a nm ks) h' (Branch a nm ?ks')"
    using h'(3,4) by (auto simp: extends_def)
  have run: "load_keys h a branch [] = (Inr (a, branch), h)" by simp
  show ?case using run h'(1,2) d T e by blast
next
  case (Cons key keys)
  let ?cs = "map (\<lambda>k. (tname k, taddr k)) ks"
  have a: "a < length h" and ha: "h ! a = BranchNode nm par ?cs"
    and kids: "\<forall>k\<in>set ks. agrees h (Some a) k"
    using Cons.prems(1) by auto
  have lt: "\<forall>x\<in>set (addrs (Branch a nm ks)). x < length h"
    using agrees_lt[OF Cons.prems(1)] by blast
  have cw: "childWithKey h a key = Inr (map_of ?cs key)"
    using ha by (simp add: childWithKey_def)
  show ?case
  proof (cases "List.extract (\<lambda>c. tname c = key) (map shape_of ks)")
    case None
    have mo: "map_of ?cs key = None" using lookup_kids_None[OF None] .
    obtain Tc where Tc: "tree_insert keys (last (fst p)) (fst p) (Branch () key (map shape_of ([]::nat tree list))) = Some Tc"
      "T' = Branch () nm (map shape_of ks @ [Tc])"
      using Cons.prems(5) None by auto
    let ?b = "length h"
    obtain h2 where h2: "insertChild (h @ [BranchNode key None []]) a ?b = Inr h2"
      "length h2 = Suc (length h)" "h2 ! a = BranchNode nm par (?cs @ [(key, ?b)])"
      "h2 ! ?b = BranchNode key (Some a) []" "\<forall>y<length h. y \<noteq> a \<longrightarrow> h2 ! y = h ! y"
      using insertChild_new[OF a ha, of "BranchNode key None []"] by auto
    have ag2: "agrees h2 (Some a) (Branch ?b key [])" using h2(2,4) by simp
    have d2: "distinct (addrs (Branch ?b key []))" by simp
    have b2: "Some ?b = None \<or> Some ?b = Some ?b" by simp
    obtain rt br h1 h' ks' where r:
      "load_keys h2 ?b (Some ?b) keys = (Inr (rt, br), h1)" "attach_leaf h1 rt br p = (None, h')"
      "agrees h' (Some a) (Branch ?b key ks')" "distinct (addrs (Branch ?b key ks'))"
      "Tc = Branch () key (map shape_of ks')"
      "extends h2 (Branch ?b key []) h' (Branch ?b key ks')"
      using Cons.IH[OF ag2 d2 b2 Cons.prems(4) Tc(1)] by auto
    have len: "length h2 \<le> length h'" and fr: "\<forall>x<length h2. x \<noteq> ?b \<longrightarrow> h' ! x = h2 ! x"
      and sub: "set (addrs (Branch ?b key ks')) \<subseteq> {?b} \<union> {length h2..<length h'}"
      using r(6) by (auto simp: extends_def)
    let ?ks'' = "ks @ [Branch ?b key ks']"
    have run: "load_keys h a branch (key # keys) = (Inr (rt, br), h1)"
      using cw mo h2(1) r(1) by (simp add: py_not_def Let_def)
    have same: "h' ! x = h ! x" if "x < length h" "x \<noteq> a" for x
      using that h2(2,5) fr by auto
    have old: "agrees h' (Some a) k" if "k \<in> set ks" for k
    proof (rule agrees_frame[of h "Some a" k])
      show "agrees h (Some a) k" using kids that by blast
      show "length h \<le> length h'" using h2(2) len by simp
      show "\<forall>x\<in>set (addrs k). h' ! x = h ! x"
      proof
        fix x assume x: "x \<in> set (addrs k)"
        have "x < length h" using lt that x by auto
        moreover have "x \<noteq> a" using Cons.prems(2) that x by auto
        ultimately show "h' ! x = h ! x" using same by blast
      qed
    qed
    have h'a: "h' ! a = BranchNode nm par (?cs @ [(key, ?b)])"
      using fr a h2(2,3) by auto
    have ag': "agrees h' par (Branch a nm ?ks'')"
      using a len h2(2) h'a old r(3) by auto
    define A where "A = set (addrs (Branch a nm ks))"
    define C where "C = set (addrs (Branch ?b key ks'))"
    have aA: "a \<in> A" and ltA: "\<forall>x\<in>A. x < length h" using lt by (simp_all add: A_def)
    have subC: "C \<subseteq> {length h..<length h'}"
      using sub h2(2) len unfolding C_def by (auto simp del: addrs.simps)
    have split: "addrs (Branch a nm ?ks'') = addrs (Branch a nm ks) @ addrs (Branch ?b key ks')"
      by simp
    have "\<forall>y\<in>set (addrs (Branch ?b key ks')). length h \<le> y"
      using subC unfolding C_def by (auto simp del: addrs.simps)
    then have d': "distinct (addrs (Branch a nm ?ks''))"
      unfolding split using distinct_append_fresh[OF Cons.prems(2) r(4) lt] by blast
    have T: "T' = Branch () nm (map shape_of ?ks'')"
      using Tc(2) r(5) by simp
    have set_eq: "set (addrs (Branch a nm ?ks'')) = A \<union> C"
      unfolding split A_def C_def by (simp del: addrs.simps)
    have fr': "\<forall>x<length h. x \<notin> A \<longrightarrow> h' ! x = h ! x"
      using same aA by blast
    have e: "extends h (Branch a nm ks) h' (Branch a nm ?ks'')"
      unfolding extends_def set_eq A_def[symmetric] using len h2(2) fr' subC by auto
    show ?thesis using run r(2) ag' d' T e by blast
  next
    case (Some trip)
    obtain pre' c' post' where trip: "trip = (pre', c', post')" by (cases trip) auto
    obtain pre c post where ks: "ks = pre @ c # post" "map shape_of pre = pre'"
      "shape_of c = c'" "map shape_of post = post'" "tname c = key"
      "map_of ?cs key = Some (taddr c)"
      using lookup_kids_Some[of key ks pre' c' post'] Some trip by auto
    have kc: "kids c \<noteq> []"
      using Cons.prems(5) Some trip ks(3) by (auto split: if_splits)
    then obtain b bks where c: "c = Branch b key bks" "bks \<noteq> []"
      using ks(5) by (cases c) auto
    obtain Tc where Tc: "tree_insert keys (last (fst p)) (fst p) (Branch () key (map shape_of bks)) = Some Tc"
      "T' = Branch () nm (pre' @ Tc # post')"
      using Cons.prems(5) Some trip ks(3) c by (auto split: if_splits)
    have agc: "agrees h (Some a) (Branch b key bks)" using kids ks(1) c by auto
    have dc: "distinct (addrs (Branch b key bks))" using Cons.prems(2) ks(1) c by auto
    have hb: "h ! b = BranchNode key (Some a) (map (\<lambda>k. (tname k, taddr k)) bks)"
      using agc by simp
    have tr: "\<not> py_not h (Some b)" using hb c(2) by (simp add: py_not_def)
    have bb: "Some b = None \<or> Some b = Some b" by simp
    obtain rt br h1 h' bks' where r:
      "load_keys h b (Some b) keys = (Inr (rt, br), h1)" "attach_leaf h1 rt br p = (None, h')"
      "agrees h' (Some a) (Branch b key bks')" "distinct (addrs (Branch b key bks'))"
      "Tc = Branch () key (map shape_of bks')"
      "extends h (Branch b key bks) h' (Branch b key bks')"
      using Cons.IH[OF agc dc bb Cons.prems(4) Tc(1)] by auto
    have len: "length h \<le> length h'"
      and fr: "\<forall>x<length h. x \<notin> set (addrs c) \<longrightarrow> h' ! x = h ! x"
      and sub: "set (addrs (Branch b key bks')) \<subseteq> set (addrs c) \<union> {length h..<length h'}"
      using r(6) c by (auto simp: extends_def)
    let ?c' = "Branch b key bks'"
    let ?ks'' = "pre @ ?c' # post"
    have run: "load_keys h a branch (key # keys) = (Inr (rt, br), h1)"
      using cw ks(6) c tr r(1) by simp
    have anc: "a \<notin> set (addrs c)" using Cons.prems(2) ks(1) by auto
    have h'a: "h' ! a = BranchNode nm par ?cs" using fr a anc ha by auto
    have cs: "map (\<lambda>k. (tname k, taddr k)) ?ks'' = ?cs" using ks(1) c by simp
    have dks: "distinct (concat (map addrs ks))" using Cons.prems(2) by simp
    have disj: "set (addrs k) \<inter> set (addrs c) = {}" if "k \<in> set pre \<union> set post" for k
      using dks that unfolding ks(1) by auto
    have old: "agrees h' (Some a) k" if "k \<in> set pre \<union> set post" for k
    proof (rule agrees_frame[of h "Some a" k])
      show "agrees h (Some a) k" using kids that ks(1) by auto
      show "length h \<le> length h'" using len .
      show "\<forall>x\<in>set (addrs k). h' ! x = h ! x"
      proof
        fix x assume x: "x \<in> set (addrs k)"
        have "x < length h" using lt that x ks(1) by auto
        moreover have "x \<notin> set (addrs c)" using disj[OF that] x by auto
        ultimately show "h' ! x = h ! x" using fr by blast
      qed
    qed
    have ag': "agrees h' par (Branch a nm ?ks'')"
      using a len h'a cs old r(3) by auto
    define A where "A = set (addrs (Branch a nm ks))"
    define C where "C = set (addrs c)"
    define C' where "C' = set (addrs ?c')"
    define X where "X = set (a # concat (map addrs pre)) \<union> set (concat (map addrs post))"
    let ?xs = "a # concat (map addrs pre)" and ?zs = "concat (map addrs post)"
    have old_d: "distinct (?xs @ addrs c @ ?zs)" using Cons.prems(2) unfolding ks(1) by simp
    have A_eq: "A = X \<union> C" unfolding A_def X_def C_def ks(1) by auto
    have ltA: "\<forall>x\<in>A. x < length h" using lt by (simp add: A_def)
    have subC: "C' \<subseteq> C \<union> {length h..<length h'}"
      using sub unfolding C_def C'_def .
    have "\<forall>y\<in>C'. y \<in> C \<or> y \<notin> X"
    proof (intro ballI)
      fix y assume "y \<in> C'"
      then have 1: "y \<in> C \<or> length h \<le> y" using subC by auto
      have 2: "y \<in> X \<Longrightarrow> y < length h" using ltA A_eq by auto
      show "y \<in> C \<or> y \<notin> X" using 1 2 by (cases "y \<in> X") auto
    qed
    then have "\<forall>y\<in>set (addrs ?c'). y \<in> set (addrs c) \<or> y \<notin> set ?xs \<union> set ?zs"
      unfolding C_def C'_def X_def .
    then have "distinct (?xs @ addrs ?c' @ ?zs)"
      using distinct_replace[OF old_d r(4)] by blast
    then have d': "distinct (addrs (Branch a nm ?ks''))" by simp
    have T: "T' = Branch () nm (map shape_of ?ks'')"
      using Tc(2) r(5) ks(2,4) by simp
    have set_eq: "set (addrs (Branch a nm ?ks'')) = X \<union> C'"
      unfolding X_def C'_def by auto
    have fr': "\<forall>x<length h. x \<notin> A \<longrightarrow> h' ! x = h ! x"
      using fr A_eq unfolding C_def by blast
    have e: "extends h (Branch a nm ks) h' (Branch a nm ?ks'')"
      unfolding extends_def set_eq A_def[symmetric] using len fr' subC A_eq by auto
    show ?thesis using run r(2) ag' d' T e by blast
  qed
qed

lemma extends_refl: "extends h t h t"
  by (simp add: extends_def)

lemma extends_trans:
  assumes "extends h t h1 t1" "extends h1 t1 h' t'"
  shows "extends h t h' t'"
proof -
  have 1: "length h \<le> length h1" "\<forall>x<length h. x \<notin> set (addrs t) \<longrightarrow> h1 ! x = h ! x"
    "set (addrs t1) \<subseteq> set (addrs t) \<union> {length h..<length h1}"
    using assms(1) by (auto simp: extends_def)
  have 2: "length h1 \<le> length h'" "\<forall>x<length h1. x \<notin> set (addrs t1) \<longrightarrow> h' ! x = h1 ! x"
    "set (addrs t') \<subseteq> set (addrs t1) \<union> {length h1..<length h'}"
    using assms(2) by (auto simp: extends_def)
  have fr: "h' ! x = h ! x" if "x < length h" "x \<notin> set (addrs t)" for x
  proof -
    have "x \<notin> set (addrs t1)" using 1(3) that by auto
    then have "h' ! x = h1 ! x" using 2(2) that(1) 1(1) by auto
    then show ?thesis using 1(2) that by auto
  qed
  have sub: "set (addrs t') \<subseteq> set (addrs t) \<union> {length h..<length h'}"
  proof
    fix x assume "x \<in> set (addrs t')"
    then have "x \<in> set (addrs t1) \<or> (length h1 \<le> x \<and> x < length h')" using 2(3) by auto
    then show "x \<in> set (addrs t) \<union> {length h..<length h'}"
      using 1(1,3) 2(1) by auto
  qed
  show ?thesis unfolding extends_def using 1(1) 2(1) fr sub by auto
qed

lemma load_path_refines:
  assumes "agrees h par (Branch a nm ks)" "distinct (addrs (Branch a nm ks))" "fst p \<noteq> []"
    "tree_insert (butlast (fst p)) (last (fst p)) (fst p) (Branch () nm (map shape_of ks)) = Some T'"
  shows "\<exists>h' ks'. load_path h a p = (None, h')
           \<and> agrees h' par (Branch a nm ks') \<and> distinct (addrs (Branch a nm ks'))
           \<and> T' = Branch () nm (map shape_of ks')
           \<and> extends h (Branch a nm ks) h' (Branch a nm ks')"
proof -
  have b: "(None::nat option) = None \<or> None = Some a" by simp
  obtain rt br h1 h' ks' where r:
    "load_keys h a None (butlast (fst p)) = (Inr (rt, br), h1)" "attach_leaf h1 rt br p = (None, h')"
    "agrees h' par (Branch a nm ks')" "distinct (addrs (Branch a nm ks'))"
    "T' = Branch () nm (map shape_of ks')"
    "extends h (Branch a nm ks) h' (Branch a nm ks')"
    using load_keys_refines[OF assms(1,2) b assms(3,4)] by blast
  have "load_path h a p = (None, h')" using r(1,2) by (simp add: load_path_def)
  then show ?thesis using r(3-6) by blast
qed

lemma load_paths_refines:
  assumes "agrees h par (Branch a nm ks)" "distinct (addrs (Branch a nm ks))"
    "tree_insert_all [] ps (Branch () nm (map shape_of ks)) = Some T'"
  shows "\<exists>h' ks'. load_paths h a ps = (None, h')
           \<and> agrees h' par (Branch a nm ks') \<and> distinct (addrs (Branch a nm ks'))
           \<and> T' = Branch () nm (map shape_of ks')
           \<and> extends h (Branch a nm ks) h' (Branch a nm ks')"
  using assms
proof (induction ps arbitrary: h ks)
  case Nil
  then show ?case using extends_refl by auto
next
  case (Cons p ps)
  have ne: "fst p \<noteq> []" using Cons.prems(3) by (auto split: if_splits)
  obtain T1 where T1: "tree_insert (butlast (fst p)) (last (fst p)) (fst p) (Branch () nm (map shape_of ks)) = Some T1"
    "tree_insert_all [] ps T1 = Some T'"
    using Cons.prems(3) ne by (auto split: option.splits)
  obtain h1 ks1 where s1: "load_path h a p = (None, h1)"
    "agrees h1 par (Branch a nm ks1)" "distinct (addrs (Branch a nm ks1))"
    "T1 = Branch () nm (map shape_of ks1)"
    "extends h (Branch a nm ks) h1 (Branch a nm ks1)"
    using load_path_refines[OF Cons.prems(1,2) ne T1(1)] by blast
  have T1': "tree_insert_all [] ps (Branch () nm (map shape_of ks1)) = Some T'"
    using T1(2) s1(4) by simp
  obtain h' ks' where s2: "load_paths h1 a ps = (None, h')"
    "agrees h' par (Branch a nm ks')" "distinct (addrs (Branch a nm ks'))"
    "T' = Branch () nm (map shape_of ks')"
    "extends h1 (Branch a nm ks1) h' (Branch a nm ks')"
    using Cons.IH[OF s1(2,3) T1'] by blast
  have "load_paths h a (p # ps) = (None, h')" using s1(1) s2(1) by simp
  then show ?case using s2(2-4) extends_trans[OF s1(5) s2(5)] by blast
qed

lemma those_map_Some: "those (map Some xs) = Some xs"
  by (induction xs) auto

lemma length_addrs_member: "k \<in> set ks \<Longrightarrow> length (addrs k) \<le> length (concat (map addrs ks))"
  by (induction ks) auto

lemma snapshot_at_agrees:
  "agrees h par t \<Longrightarrow> length (addrs t) \<le> fuel \<Longrightarrow> snapshot_at fuel h (taddr t) = Some t"
proof (induction t arbitrary: fuel par)
  case (Leaf a l pth)
  then obtain f where "fuel = Suc f" by (cases fuel) auto
  then show ?case using Leaf by simp
next
  case (Branch a n ks)
  obtain f where f: "fuel = Suc f" using Branch.prems(2) by (cases fuel) auto
  have "snapshot_at f h (taddr k) = Some k" if "k \<in> set ks" for k
  proof (rule Branch.IH[OF that])
    show "agrees h (Some a) k" using Branch.prems(1) that by simp
    show "length (addrs k) \<le> f" using Branch.prems(2) f length_addrs_member[OF that] by simp
  qed
  then have "map (\<lambda>kc. snapshot_at f h (snd kc)) (map (\<lambda>k. (tname k, taddr k)) ks) = map Some ks"
    by simp
  then have "those (map (\<lambda>kc. snapshot_at f h (snd kc)) (map (\<lambda>k. (tname k, taddr k)) ks)) = Some ks"
    by (simp only: those_map_Some)
  moreover have "a < length h" "h ! a = BranchNode n par (map (\<lambda>k. (tname k, taddr k)) ks)"
    using Branch.prems(1) by simp_all
  ultimately show ?case unfolding f by (simp del: map_map)
qed

lemma distinct_bounded_length:
  assumes "distinct xs" "\<forall>x\<in>set xs. x < (n::nat)"
  shows "length xs \<le> n"
proof -
  have "card (set xs) \<le> card {..<n}" using assms(2) by (intro card_mono) auto
  then show ?thesis using distinct_card[OF assms(1)] by simp
qed

lemma snapshot_agrees:
  assumes "agrees (heap m) par t" "distinct (addrs t)" "taddr t = root m"
  shows "snapshot m = Some t"
proof -
  have "length (addrs t) \<le> length (heap m)"
    using distinct_bounded_length[OF assms(2)] agrees_lt[OF assms(1)] by blast
  then show ?thesis using snapshot_at_agrees[OF assms(1)] assms(3) by (simp add: snapshot_def)
qed

lemma load_correct:
  assumes "root_ok m" "wf_dict (data_dict m)"
  shows "\<exists>h' ks. load m = (Inr (), m\<lparr>heap := h', paths := getPaths (data_dict m) [],
                                      signals := signals m @ [BeginResetModel, EndResetModel]\<rparr>)
           \<and> agrees h' None (Branch (root m) (name (heap m ! root m)) ks)
           \<and> distinct (addrs (Branch (root m) (name (heap m ! root m)) ks))
           \<and> map shape_of ks = tree_of (data_dict m) []
           \<and> length (heap m) \<le> length h'
           \<and> (\<forall>x<length (heap m). x \<noteq> root m \<longrightarrow> h' ! x = heap m ! x)"
proof -
  obtain n cs where rt: "root m < length (heap m)" "heap m ! root m = BranchNode n None cs"
    using assms(1) by (auto simp: root_ok_def split: node.splits)
  let ?h0 = "(heap m)[root m := BranchNode n None []]"
  let ?t0 = "Branch (root m) n ([]::nat tree list)"
  have ag0: "agrees ?h0 None ?t0" using rt(1) by simp
  have d0: "distinct (addrs ?t0)" by simp
  have "tree_insert_all [] (getPaths (data_dict m) []) (Branch () n []) = Some (Branch () n ([] @ tree_of (data_dict m) []))"
    using tree_insert_all_getPaths[OF assms(2), of "[]" "[]" n] by simp
  then have ai: "tree_insert_all [] (getPaths (data_dict m) []) (Branch () n (map shape_of ([]::nat tree list)))
      = Some (Branch () n (tree_of (data_dict m) []))"
    by simp
  obtain h' ks where r: "load_paths ?h0 (root m) (getPaths (data_dict m) []) = (None, h')"
    "agrees h' None (Branch (root m) n ks)" "distinct (addrs (Branch (root m) n ks))"
    "Branch () n (tree_of (data_dict m) []) = Branch () n (map shape_of ks)"
    "extends ?h0 ?t0 h' (Branch (root m) n ks)"
    using load_paths_refines[OF ag0 d0 ai] by blast
  have run: "load m = (Inr (), m\<lparr>heap := h', paths := getPaths (data_dict m) [],
                                   signals := signals m @ [BeginResetModel, EndResetModel]\<rparr>)"
    using rt(2) r(1) by (simp add: load_def Let_def)
  have len: "length (heap m) \<le> length h'" using r(5) by (simp add: extends_def)
  have fr: "\<forall>x<length (heap m). x \<noteq> root m \<longrightarrow> h' ! x = heap m ! x"
    using r(5) by (auto simp: extends_def)
  show ?thesis using run r(2,3,4) len fr rt(2) by auto
qed

section \<open>What load builds\<close>

lemma getPaths_hd_key:
  "p \<in> set (getPaths d []) \<Longrightarrow> fst p \<noteq> [] \<and> hd (fst p) \<in> set (map fst d)"
proof (induction d "[]::string list" rule: getPaths.induct)
  case (2 k d rest)
  then show ?case by (auto simp: getPaths_cons[of d k "[]"])
qed auto

lemma dict_getitem_skip: "k \<noteq> x \<Longrightarrow> dict_getitem ((k, y) # rest) x = dict_getitem rest x"
  by (simp add: dict_getitem_def)

lemma dict_getitem_here: "dict_getitem ((k, y) # rest) k = Inr y"
  by (simp add: dict_getitem_def)

lemma get_nested_getPaths:
  "wf_dict d \<Longrightarrow> p \<in> set (getPaths d []) \<Longrightarrow>
   get_nested_dict_item (Dict d) (fst p) = Inr (Scalar (snd p))"
proof (induction d arbitrary: p rule: wf_dict.induct)
  case 1
  then show ?case by simp
next
  case (2 k d rest)
  from "2.prems"(2) consider
    (here) q where "q \<in> set (getPaths d [])" "p = (k # fst q, snd q)"
    | (there) "p \<in> set (getPaths rest [])"
    by (auto simp: getPaths_cons[of d k "[]"])
  then show ?case
  proof cases
    case here
    then show ?thesis using "2.IH"(1)[of q] "2.prems"(1) by (simp add: dict_getitem_here)
  next
    case there
    then obtain x xs where x: "fst p = x # xs" "x \<in> set (map fst rest)"
      using getPaths_hd_key[OF there] by (cases "fst p") auto
    then have "k \<noteq> x" using "2.prems"(1) by auto
    have "get_nested_dict_item (Dict rest) (fst p) = Inr (Scalar (snd p))"
      using "2.IH"(2)[OF _ there] "2.prems"(1) by simp
    then show ?thesis using \<open>k \<noteq> x\<close> x(1) by (simp add: dict_getitem_skip)
  qed
next
  case (3 k v rest)
  from "3.prems"(2) consider (here) "p = ([k], v)" | (there) "p \<in> set (getPaths rest [])"
    by auto
  then show ?case
  proof cases
    case here
    then show ?thesis by (simp add: dict_getitem_here)
  next
    case there
    then obtain x xs where x: "fst p = x # xs" "x \<in> set (map fst rest)"
      using getPaths_hd_key[OF there] by (cases "fst p") auto
    then have "k \<noteq> x" using "3.prems"(1) by auto
    have "get_nested_dict_item (Dict rest) (fst p) = Inr (Scalar (snd p))"
      using "3.IH"[OF _ there] "3.prems"(1) by simp
    then show ?thesis using \<open>k \<noteq> x\<close> x(1) by (simp add: dict_getitem_skip)
  qed
qed

lemma leaf_positions_shape [simp]: "leaf_positions cur (shape_of t) = leaf_positions cur t"
  by (induction t arbitrary: cur) (auto simp: map_concat intro!: arg_cong[where f = concat])

lemma branch_positions_shape [simp]: "branch_positions cur (shape_of t) = branch_positions cur t"
  by (induction t arbitrary: cur) (auto simp: map_concat intro!: arg_cong[where f = concat])

lemma leaf_positions_tree_of:
  "concat (map (leaf_positions cur) (tree_of d cur)) = map (\<lambda>p. (fst p, fst p)) (getPaths d cur)"
  by (induction d cur rule: tree_of.induct) auto

lemma branch_positions_tree_of:
  "concat (map (branch_positions cur) (tree_of d cur)) = leafy_mapping_entries d cur"
  by (induction d cur rule: tree_of.induct) auto

lemma scalar_entries_getPaths: "scalar_entries d cur = map fst (getPaths d cur)"
  by (induction d cur rule: getPaths.induct) auto

lemma distinct_paths_nil: "wf_dict d \<Longrightarrow> distinct (map fst (getPaths d []))"
proof (induction d rule: wf_dict.induct)
  case 1
  then show ?case by simp
next
  case (2 k d rest)
  have 1: "distinct (map fst (getPaths d [k]))"
    using "2.IH"(1) "2.prems" by (simp add: getPaths_cons[of d k "[]"] distinct_map inj_on_def)
  have 2: "distinct (map fst (getPaths rest []))" using "2.IH"(2) "2.prems" by simp
  have 3: "x \<noteq> y" if "x \<in> set (map fst (getPaths d [k]))" "y \<in> set (map fst (getPaths rest []))" for x y
  proof -
    have "hd x = k" using that(1) by (auto simp: getPaths_cons[of d k "[]"])
    moreover have "hd y \<in> set (map fst rest)" using that(2) getPaths_hd_key by fastforce
    ultimately show ?thesis using "2.prems" by auto
  qed
  show ?case using 1 2 3 by auto
next
  case (3 k v rest)
  have 2: "distinct (map fst (getPaths rest []))" using "3.IH" "3.prems" by simp
  have 3: "[k] \<noteq> y" if "y \<in> set (map fst (getPaths rest []))" for y
  proof -
    have "hd y \<in> set (map fst rest)" using that getPaths_hd_key by fastforce
    moreover have "k \<notin> set (map fst rest)" using "3.prems" by simp
    ultimately show ?thesis by (cases y) auto
  qed
  show ?case using 2 3 by auto
qed

lemma distinct_paths: "wf_dict d \<Longrightarrow> distinct (map fst (getPaths d cur))"
  using distinct_paths_nil[of d] getPaths_append[of d cur "[]"]
  by (simp add: distinct_map inj_on_def comp_def)

lemma leafy_append:
  "leafy_mapping_entries d (cur @ cur') = map ((@) cur) (leafy_mapping_entries d cur')"
proof (induction d cur' arbitrary: cur rule: leafy_mapping_entries.induct)
  case (2 k d rest cur')
  have e: "getPaths d (cur @ cur' @ [k]) = [] \<longleftrightarrow> getPaths d (cur' @ [k]) = []"
    using getPaths_empty_iff[of d "cur @ cur' @ [k]"] getPaths_empty_iff[of d "cur' @ [k]"] by simp
  show ?case using 2[of cur] e by (auto simp flip: append_assoc)
qed auto

lemma leafy_cons: "leafy_mapping_entries d [k] = map ((#) k) (leafy_mapping_entries d [])"
  using leafy_append[of d "[k]" "[]"] by simp

lemma leafy_hd_key:
  "x \<in> set (leafy_mapping_entries d []) \<Longrightarrow> x \<noteq> [] \<and> hd x \<in> set (map fst d)"
proof (induction d "[]::string list" rule: leafy_mapping_entries.induct)
  case (2 k d rest)
  then show ?case by (auto simp: leafy_cons split: if_splits)
qed auto

lemma distinct_leafy_nil: "wf_dict d \<Longrightarrow> distinct (leafy_mapping_entries d [])"
proof (induction d rule: wf_dict.induct)
  case 1
  then show ?case by simp
next
  case (2 k d rest)
  let ?here = "if getPaths d [k] = [] then [] else [k] # leafy_mapping_entries d [k]"
  have 0: "[k] \<notin> set (leafy_mapping_entries d [k])"
    using leafy_hd_key[of _ d] by (auto simp: leafy_cons)
  have 1: "distinct ?here"
    using "2.IH"(1) "2.prems" 0 by (simp add: leafy_cons distinct_map inj_on_def)
  have 2: "distinct (leafy_mapping_entries rest [])" using "2.IH"(2) "2.prems" by simp
  have 3: "x \<noteq> y" if "x \<in> set ?here" "y \<in> set (leafy_mapping_entries rest [])" for x y
  proof -
    have "hd x = k" using that(1) by (auto simp: leafy_cons split: if_splits)
    moreover have "hd y \<in> set (map fst rest)" using that(2) leafy_hd_key by fastforce
    ultimately show ?thesis using "2.prems" by auto
  qed
  have "distinct (?here @ leafy_mapping_entries rest [])"
    using 1 2 3 unfolding distinct_append by blast
  then show ?case by (simp only: leafy_mapping_entries.simps append_Nil)
next
  case (3 k v rest)
  then show ?case by simp
qed

lemma distinct_names_shape [simp]: "distinct_names (shape_of t) = distinct_names t"
  by (induction t) (auto simp: comp_def)

lemma distinct_names_tree_of:
  "wf_dict d \<Longrightarrow> distinct (map tname (tree_of d cur)) \<and> (\<forall>t\<in>set (tree_of d cur). distinct_names t)"
proof (induction d cur rule: tree_of.induct)
  case (1 cur)
  then show ?case by simp
next
  case (2 k d rest cur)
  have "k \<notin> set (map tname (tree_of rest cur))"
    using tree_of_names[of rest cur] "2.prems" by auto
  then show ?case using 2 by auto
next
  case (3 k v rest cur)
  have "k \<notin> set (map tname (tree_of rest cur))"
    using tree_of_names[of rest cur] "3.prems" by auto
  then show ?case using 3 by auto
qed

lemma flatten_under_agrees:
  "agrees (heap m) par t \<Longrightarrow>
   flatten_under m cur t
     = map (\<lambda>q. (fst q, get_nested_dict_item (Dict (data_dict m)) (snd q))) (leaf_positions cur t)"
proof (induction t arbitrary: cur par)
  case (Leaf a l pth)
  then show ?case by (simp add: leaf_value_def)
next
  case (Branch a n ks)
  have "flatten_under m (cur @ [n]) k
     = map (\<lambda>q. (fst q, get_nested_dict_item (Dict (data_dict m)) (snd q))) (leaf_positions (cur @ [n]) k)"
    if "k \<in> set ks" for k
    using Branch.IH[OF that, of "Some a"] Branch.prems that by simp
  then show ?case by (simp add: map_concat cong: map_cong)
qed

lemma load_result:
  assumes "root_ok m" "wf_dict (data_dict m)"
  obtains m' ks where "load m = (Inr (), m')"
    "data_dict m' = data_dict m" "root m' = root m" "paths m' = getPaths (data_dict m) []"
    "agrees (heap m') None (Branch (root m) (name (heap m ! root m)) ks)"
    "distinct (addrs (Branch (root m) (name (heap m ! root m)) ks))"
    "map shape_of ks = tree_of (data_dict m) []"
    "snapshot m' = Some (Branch (root m) (name (heap m ! root m)) ks)"
    "root_ok m'" "name (heap m' ! root m') = name (heap m ! root m)"
    "length (heap m) \<le> length (heap m')"
    "\<forall>x<length (heap m). x \<noteq> root m \<longrightarrow> heap m' ! x = heap m ! x"
proof -
  let ?nm = "name (heap m ! root m)"
  obtain h' ks where r:
    "load m = (Inr (), m\<lparr>heap := h', paths := getPaths (data_dict m) [],
                          signals := signals m @ [BeginResetModel, EndResetModel]\<rparr>)"
    "agrees h' None (Branch (root m) ?nm ks)" "distinct (addrs (Branch (root m) ?nm ks))"
    "map shape_of ks = tree_of (data_dict m) []" "length (heap m) \<le> length h'"
    "\<forall>x<length (heap m). x \<noteq> root m \<longrightarrow> h' ! x = heap m ! x"
    using load_correct[OF assms] by blast
  let ?m' = "m\<lparr>heap := h', paths := getPaths (data_dict m) [],
                 signals := signals m @ [BeginResetModel, EndResetModel]\<rparr>"
  have ag: "agrees (heap ?m') None (Branch (root m) ?nm ks)" using r(2) by simp
  have sn: "snapshot ?m' = Some (Branch (root m) ?nm ks)"
    using snapshot_agrees[OF ag r(3)] by simp
  have ok: "root_ok ?m'" using r(2) by (simp add: root_ok_def)
  have nm: "name (heap ?m' ! root ?m') = ?nm" using r(2) by simp
  show ?thesis
    using that[of ?m' ks] r(1) ag r(3,4) sn ok nm r(5,6) by simp
qed

lemma leaf_positions_kids:
  "map shape_of ks = ts \<Longrightarrow> concat (map (leaf_positions cur) ks) = concat (map (leaf_positions cur) ts)"
  by (auto simp: comp_def)

lemma branch_positions_kids:
  "map shape_of ks = ts \<Longrightarrow> concat (map (branch_positions cur) ks) = concat (map (branch_positions cur) ts)"
  by (auto simp: comp_def)

lemma load_flatten_aux:
  assumes "root_ok m" "wf_dict (data_dict m)"
  shows "fst (load m) = Inr ()"
    and "flatten (snd (load m))
          = Some (map (\<lambda>p. (fst p, Inr (Scalar (snd p)))) (getPaths (data_dict m) []))"
    and "paths (snd (load m)) = getPaths (data_dict m) []"
proof -
  let ?D = "data_dict m"
  obtain m' ks where r: "load m = (Inr (), m')" "data_dict m' = ?D" "paths m' = getPaths ?D []"
    "agrees (heap m') None (Branch (root m) (name (heap m ! root m)) ks)"
    "map shape_of ks = tree_of ?D []"
    "snapshot m' = Some (Branch (root m) (name (heap m ! root m)) ks)"
    using load_result[OF assms] by metis
  let ?f = "\<lambda>q. (fst q, get_nested_dict_item (Dict ?D) (snd q))"
  have "flatten_under m' [] k = map ?f (leaf_positions [] k)" if "k \<in> set ks" for k
    using flatten_under_agrees[of m' "Some (root m)" k "[]"] r(2,4) that by simp
  then have "concat (map (flatten_under m' []) ks) = concat (map (\<lambda>k. map ?f (leaf_positions [] k)) ks)"
    by (simp cong: map_cong)
  also have "\<dots> = map ?f (concat (map (leaf_positions []) ks))"
    by (simp add: map_concat comp_def)
  also have "\<dots> = map ?f (map (\<lambda>p. (fst p, fst p)) (getPaths ?D []))"
    using leaf_positions_kids[OF r(5), of "[]"] leaf_positions_tree_of[of "[]" ?D] by simp
  also have "\<dots> = map (\<lambda>p. (fst p, Inr (Scalar (snd p)))) (getPaths ?D [])"
    using get_nested_getPaths[OF assms(2)] by (simp add: comp_def cong: map_cong)
  finally have fl: "concat (map (flatten_under m' []) ks)
      = map (\<lambda>p. (fst p, Inr (Scalar (snd p)))) (getPaths ?D [])" .
  show "fst (load m) = Inr ()" using r(1) by simp
  show "paths (snd (load m)) = getPaths ?D []" using r(1,3) by simp
  show "flatten (snd (load m)) = Some (map (\<lambda>p. (fst p, Inr (Scalar (snd p)))) (getPaths ?D []))"
    using r(1,6) fl by (simp add: flatten_def)
qed

lemma getPaths_complete:
  "ks \<noteq> [] \<Longrightarrow> get_nested_dict_item (Dict d) ks = Inr (Scalar v)
   \<Longrightarrow> (ks, v) \<in> set (getPaths d [])"
proof (induction d arbitrary: ks rule: wf_dict.induct)
  case 1
  then show ?case by (cases ks) (auto simp: dict_getitem_def)
next
  case (2 k d rest)
  obtain x xs where ks: "ks = x # xs" using "2.prems"(1) by (cases ks) auto
  show ?case
  proof (cases "x = k")
    case True
    have g: "get_nested_dict_item (Dict d) xs = Inr (Scalar v)"
      using "2.prems"(2) ks True by (simp add: dict_getitem_here)
    then have "xs \<noteq> []" by auto
    then have "(xs, v) \<in> set (getPaths d [])" using "2.IH"(1) g by blast
    then show ?thesis using ks True by (force simp: getPaths_cons[of d k "[]"])
  next
    case False
    then have "get_nested_dict_item (Dict rest) ks = Inr (Scalar v)"
      using "2.prems"(2) ks by (simp add: dict_getitem_skip)
    then show ?thesis using "2.IH"(2) "2.prems"(1) by simp
  qed
next
  case (3 k v0 rest)
  obtain x xs where ks: "ks = x # xs" using "3.prems"(1) by (cases ks) auto
  show ?case
  proof (cases "x = k")
    case True
    have g: "get_nested_dict_item (Scalar v0) xs = Inr (Scalar v)"
      using "3.prems"(2) ks True by (simp add: dict_getitem_here)
    then have "xs = [] \<and> v0 = v" by (cases xs) auto
    then show ?thesis using ks True by simp
  next
    case False
    then have "get_nested_dict_item (Dict rest) ks = Inr (Scalar v)"
      using "3.prems"(2) ks by (simp add: dict_getitem_skip)
    then show ?thesis using "3.IH" "3.prems"(1) by simp
  qed
qed

lemma pairs_by_lookup:
  assumes "wf_dict d"
  shows "(ks, v) \<in> set (getPaths d []) \<longleftrightarrow>
         ks \<noteq> [] \<and> get_nested_dict_item (Dict d) ks = Inr (Scalar v)"
  using getPaths_complete[of ks d v] get_nested_getPaths[OF assms, of "(ks, v)"]
    getPaths_keys_nonempty[of "(ks, v)" d "[]"]
  by auto

text \<open>
  C1. For a source dictionary (each key once per dictionary) and a model whose root is a
  parentless branch, \<^verbatim>\<open>load\<close> returns normally, and flattening the tree it has built
  gives exactly the root-to-leaf pairs of the dictionary, in insertion order. The pairs
  of the dictionary are given three times: as what \<^verbatim>\<open>getPaths\<close> collects (also
  cached in \<^verbatim>\<open>self.paths\<close>); as the key paths of the scalar entries, each once, with
  the value that successive lookups from the dictionary root find; and as a set, a pair
  \<open>(ks, v)\<close> being flattened exactly when \<open>ks\<close> is a nonempty key path at which
  successive lookups find the scalar \<open>v\<close>. Nothing else is flattened.
\<close>

theorem load_then_flatten:
  assumes "root_ok m" and "wf_dict (data_dict m)"
  shows "fst (load m) = Inr ()
    \<and> flatten (snd (load m))
        = Some (map (\<lambda>p. (fst p, Inr (Scalar (snd p)))) (getPaths (data_dict m) []))
    \<and> paths (snd (load m)) = getPaths (data_dict m) []
    \<and> flatten (snd (load m))
        = Some (map (\<lambda>ks. (ks, get_nested_dict_item (Dict (data_dict m)) ks))
                  (scalar_entries (data_dict m) []))
    \<and> distinct (scalar_entries (data_dict m) [])
    \<and> (\<forall>ks v. (ks, Inr (Scalar v)) \<in> flattened (snd (load m)) \<longleftrightarrow>
          ks \<noteq> [] \<and> get_nested_dict_item (Dict (data_dict m)) ks = Inr (Scalar v))
    \<and> (\<forall>q\<in>flattened (snd (load m)). \<exists>v. snd q = Inr (Scalar v))"
proof -
  let ?D = "data_dict m"
  let ?xs = "map (\<lambda>p. (fst p, Inr (Scalar (snd p)))) (getPaths ?D [])"
  have fl: "flatten (snd (load m)) = Some ?xs" using load_flatten_aux(2)[OF assms] .
  have "?xs = map (\<lambda>p. (fst p, get_nested_dict_item (Dict ?D) (fst p))) (getPaths ?D [])"
    using get_nested_getPaths[OF assms(2)] by (simp cong: map_cong)
  also have "\<dots> = map (\<lambda>ks. (ks, get_nested_dict_item (Dict ?D) ks)) (scalar_entries ?D [])"
    by (simp add: scalar_entries_getPaths comp_def)
  finally have fl2: "flatten (snd (load m))
      = Some (map (\<lambda>ks. (ks, get_nested_dict_item (Dict ?D) ks)) (scalar_entries ?D []))"
    using fl by simp
  have fs: "flattened (snd (load m)) = set ?xs" using fl by (simp add: flattened_def)
  have mem: "(ks, Inr (Scalar v)) \<in> set ?xs \<longleftrightarrow> (ks, v) \<in> set (getPaths ?D [])" for ks v
    by (force simp: image_iff)
  have 6: "\<forall>ks v. (ks, Inr (Scalar v)) \<in> flattened (snd (load m)) \<longleftrightarrow>
          ks \<noteq> [] \<and> get_nested_dict_item (Dict ?D) ks = Inr (Scalar v)"
    unfolding fs mem using pairs_by_lookup[OF assms(2)] by blast
  have 7: "\<forall>q\<in>flattened (snd (load m)). \<exists>v. snd q = Inr (Scalar v)"
    unfolding fs by auto
  show ?thesis
    using load_flatten_aux(1,3)[OF assms] fl fl2 distinct_paths[OF assms(2), of "[]"] 6 7
    by (simp add: scalar_entries_getPaths)
qed

theorem load_then_flatten_witness:
  "root_ok example_model \<and> wf_dict (data_dict example_model)
   \<and> fst (load example_model) = Inr ()
   \<and> flatten (snd (load example_model))
       = Some [([''a''], Inr (Scalar 1)), ([''x'', ''y''], Inr (Scalar 2)),
               ([''x'', ''z''], Inr (Scalar 3))]
   \<and> ([''x'', ''z''], Inr (Scalar 3)) \<in> flattened (snd (load example_model))"
proof -
  have r: "root_ok example_model" by code_simp
  have w: "wf_dict (data_dict example_model)" by code_simp
  have g: "getPaths (data_dict example_model) []
      = [([''a''], 1), ([''x'', ''y''], 2), ([''x'', ''z''], 3)]" by code_simp
  have l: "get_nested_dict_item (Dict (data_dict example_model)) [''x'', ''z''] = Inr (Scalar 3)"
    by code_simp
  have "([''x'', ''z''], Inr (Scalar 3)) \<in> flattened (snd (load example_model))"
    using load_then_flatten[OF r w] l by blast
  then show ?thesis using load_then_flatten[OF r w] r w g by simp
qed

lemma load_shape_aux:
  assumes "root_ok m" "wf_dict (data_dict m)"
  shows "shape (snd (load m)) = Some (Branch () (name (heap m ! root m)) (tree_of (data_dict m) []))"
    and "map_option leaves_below_root (snapshot (snd (load m)))
          = Some (map (\<lambda>ks. (ks, ks)) (scalar_entries (data_dict m) []))"
    and "map_option branches_below_root (snapshot (snd (load m)))
          = Some (leafy_mapping_entries (data_dict m) [])"
    and "map_option distinct_names (snapshot (snd (load m))) = Some True"
proof -
  let ?D = "data_dict m"
  obtain m' ks where r: "load m = (Inr (), m')"
    "map shape_of ks = tree_of ?D []"
    "snapshot m' = Some (Branch (root m) (name (heap m ! root m)) ks)"
    using load_result[OF assms] by metis
  show "shape (snd (load m)) = Some (Branch () (name (heap m ! root m)) (tree_of ?D []))"
    using r by (simp add: shape_def)
  show "map_option leaves_below_root (snapshot (snd (load m)))
          = Some (map (\<lambda>ks. (ks, ks)) (scalar_entries ?D []))"
    using r(1,3) leaf_positions_kids[OF r(2), of "[]"] leaf_positions_tree_of[of "[]" ?D]
    by (simp add: leaves_below_root_def scalar_entries_getPaths comp_def)
  show "map_option branches_below_root (snapshot (snd (load m)))
          = Some (leafy_mapping_entries ?D [])"
    using r(1,3) branch_positions_kids[OF r(2), of "[]"] branch_positions_tree_of[of "[]" ?D]
    by (simp add: branches_below_root_def)
  have "distinct_names (Branch () (name (heap m ! root m)) (map shape_of ks))"
    using distinct_names_tree_of[OF assms(2), of "[]"] r(2) by simp
  then have "distinct_names (shape_of (Branch (root m) (name (heap m ! root m)) ks))"
    by simp
  then have "distinct_names (Branch (root m) (name (heap m ! root m)) ks)"
    by (simp only: distinct_names_shape)
  then show "map_option distinct_names (snapshot (snd (load m))) = Some True"
    using r(1,3) by simp
qed

text \<open>
  C3, as the code has it. After \<^verbatim>\<open>load\<close> the tree below the root is the tree of
  the dictionary: every scalar entry, at any depth, is exactly one leaf, found under the
  names of its key path and storing that key path; every nested dictionary that holds a
  scalar at some depth is exactly one branch, found under the names of its key path, also
  when it holds a single leaf; a nested dictionary that holds no scalar at any depth has
  no node.
\<close>

theorem load_mirrors_leafy_shape:
  assumes "root_ok m" and "wf_dict (data_dict m)"
  shows "fst (load m) = Inr ()
    \<and> shape (snd (load m))
        = Some (Branch () (name (heap m ! root m)) (tree_of (data_dict m) []))
    \<and> map_option leaves_below_root (snapshot (snd (load m)))
        = Some (map (\<lambda>ks. (ks, ks)) (scalar_entries (data_dict m) []))
    \<and> distinct (scalar_entries (data_dict m) [])
    \<and> map_option branches_below_root (snapshot (snd (load m)))
        = Some (leafy_mapping_entries (data_dict m) [])
    \<and> distinct (leafy_mapping_entries (data_dict m) [])"
  using load_shape_aux(1-3)[OF assms] load_flatten_aux(1)[OF assms]
    distinct_paths[OF assms(2), of "[]"] distinct_leafy_nil[OF assms(2)]
  by (simp add: scalar_entries_getPaths)

theorem load_mirrors_leafy_shape_witness:
  "root_ok example_model \<and> wf_dict (data_dict example_model)
   \<and> shape (snd (load example_model))
       = Some (Branch () [] [Leaf () ''a'' [''a''],
            Branch () ''x'' [Leaf () ''y'' [''x'', ''y''], Leaf () ''z'' [''x'', ''z'']]])
   \<and> map_option branches_below_root (snapshot (snd (load example_model))) = Some [[''x'']]"
proof -
  have r: "root_ok example_model" by code_simp
  have w: "wf_dict (data_dict example_model)" by code_simp
  have n: "name (heap example_model ! root example_model) = []" by code_simp
  have t: "tree_of (data_dict example_model) []
      = [Leaf () ''a'' [''a''],
         Branch () ''x'' [Leaf () ''y'' [''x'', ''y''], Leaf () ''z'' [''x'', ''z'']]]"
    by code_simp
  have l: "leafy_mapping_entries (data_dict example_model) [] = [[''x'']]" by code_simp
  show ?thesis using load_mirrors_leafy_shape[OF r w] r w n t l by simp
qed

text \<open>
  C3 as stated fails twice. The dictionary \<^verbatim>\<open>{"x": {}}\<close> has the mapping-valued
  entry \<^verbatim>\<open>x\<close>, which is not a dictionary with a single leaf, and the loaded tree has no
  branch at all. And \<^verbatim>\<open>{"x": {"y": 2}}\<close>, a dictionary with a single leaf inside,
  is not represented by the leaf alone: the tree has the branch \<^verbatim>\<open>x\<close> above the leaf.
\<close>

theorem empty_mapping_counterexample:
  "mapping_entries empty_nested_dict [] = [[''x'']]
   \<and> fst (init empty_nested_dict True) = Inr ()
   \<and> map_option branches_below_root (snapshot (snd (init empty_nested_dict True))) = Some []
   \<and> shape (snd (init empty_nested_dict True)) = Some (Branch () [] [])
   \<and> mapping_entries nested_dict [] = [[''x'']]
   \<and> scalar_entries nested_dict [] = [[''x'', ''y'']]
   \<and> shape nested_model = Some (Branch () [] [Branch () ''x'' [Leaf () ''y'' [''x'', ''y'']]])"
  by code_simp

text \<open>
  C6. Loading twice with the dictionary unchanged gives a tree of the same shape (names,
  labels and stored paths) with the same flattening (paths and values) and the same
  cached paths as loading once. No branch is duplicated: in the loaded tree no two
  children of a branch share a name.
\<close>

theorem load_twice:
  assumes "root_ok m" and "wf_dict (data_dict m)"
  shows "fst (load (snd (load m))) = Inr ()
    \<and> shape (snd (load (snd (load m)))) = shape (snd (load m))
    \<and> shape (snd (load m)) \<noteq> None
    \<and> flatten (snd (load (snd (load m)))) = flatten (snd (load m))
    \<and> flatten (snd (load m)) \<noteq> None
    \<and> paths (snd (load (snd (load m)))) = paths (snd (load m))
    \<and> data_dict (snd (load (snd (load m)))) = data_dict m
    \<and> map_option distinct_names (snapshot (snd (load m))) = Some True"
proof -
  obtain m' ks where r: "load m = (Inr (), m')" "data_dict m' = data_dict m" "root_ok m'"
    "name (heap m' ! root m') = name (heap m ! root m)"
    using load_result[OF assms] by metis
  have w': "wf_dict (data_dict m')" using r(2) assms(2) by simp
  have m': "snd (load m) = m'" using r(1) by simp
  show ?thesis
    unfolding m'
    using load_flatten_aux[OF r(3) w'] load_shape_aux(1)[OF r(3) w'] load_data_dict[of m']
      load_flatten_aux[OF assms] load_shape_aux(1,4)[OF assms] r(2,4) m'
    by simp
qed

theorem load_twice_witness:
  "root_ok example_model \<and> wf_dict (data_dict example_model)
   \<and> shape (snd (load (snd (load example_model)))) = shape (snd (load example_model))
   \<and> flatten (snd (load (snd (load example_model)))) = flatten (snd (load example_model))"
proof -
  have r: "root_ok example_model" by code_simp
  have w: "wf_dict (data_dict example_model)" by code_simp
  show ?thesis using load_twice[OF r w] r w by simp
qed

section \<open>Editing a leaf\<close>


lemma dict_setitem_skip:
  "k \<noteq> x \<Longrightarrow> dict_setitem ((k, y) # rest) x z = (k, y) # dict_setitem rest x z"
  by simp





lemma snapshot_data_dict [simp]: "snapshot (m\<lparr>data_dict := dic\<rparr>) = snapshot m"
  by (simp add: snapshot_def)










section \<open>Parent navigation\<close>












end
